theory Spec2Isabelle
  imports Main "HOL-Library.Log_Nat"
begin

section \<open>Characters and strings\<close>

text \<open>
  Strings of both languages are modelled as \<^typ>\<open>string\<close>. A \<^typ>\<open>char\<close> stands for
  the code point of the same number, so the model covers the texts whose characters lie
  in U+0000..U+00FF (ASCII and Latin-1); each such character is one UTF-16 code unit, so
  \<^const>\<open>length\<close> is what JavaScript's \<^verbatim>\<open>.length\<close> and Python's \<^verbatim>\<open>len\<close> count.
\<close>

definition code :: "char \<Rightarrow> nat" where
  "code c = of_char c"

text \<open>JavaScript's \<^verbatim>\<open>\s\<close>: TAB, LF, VT, FF, CR, SPACE and NO-BREAK SPACE below U+0100.\<close>

definition is_space :: "char \<Rightarrow> bool" where
  "is_space c = (code c \<in> {9, 10, 11, 12, 13, 32, 160})"

text \<open>The line terminators, which \<^verbatim>\<open>.\<close> does not match: LF and CR below U+0100.\<close>

definition is_line_terminator :: "char \<Rightarrow> bool" where
  "is_line_terminator c = (code c \<in> {10, 13})"

text \<open>
  The class \<^verbatim>\<open>[\p{L}\p{N}']\<close> below U+0100: the digits, the ASCII letters, the
  apostrophe, and in Latin-1 the letters U+00AA, U+00B5, U+00BA, U+00C0..U+00D6,
  U+00D8..U+00F6, U+00F8..U+00FF and the numbers U+00B2, U+00B3, U+00B9, U+00BC..U+00BE.
\<close>

definition is_core_char :: "char \<Rightarrow> bool" where
  "is_core_char c =
     (let n = code c in
        n = 39 \<or> (48 \<le> n \<and> n \<le> 57) \<or> (65 \<le> n \<and> n \<le> 90) \<or> (97 \<le> n \<and> n \<le> 122)
        \<or> n = 170 \<or> n = 178 \<or> n = 179 \<or> n = 181 \<or> n = 185 \<or> n = 186
        \<or> (188 \<le> n \<and> n \<le> 190) \<or> (192 \<le> n \<and> n \<le> 214) \<or> (216 \<le> n \<and> n \<le> 246)
        \<or> (248 \<le> n \<and> n \<le> 255))"

text \<open>Python's \<^verbatim>\<open>str.lower\<close> on one character below U+0100.\<close>

definition lower_char :: "char \<Rightarrow> char" where
  "lower_char c =
     (let n = code c in
        if (65 \<le> n \<and> n \<le> 90) \<or> (192 \<le> n \<and> n \<le> 214) \<or> (216 \<le> n \<and> n \<le> 222)
        then char_of (n + 32) else c)"

definition lower :: "string \<Rightarrow> string" where
  "lower s = map lower_char s"

section \<open>The server: extension check\<close>

definition ALLOWED_EXTENSIONS :: "string set" where
  "ALLOWED_EXTENSIONS = {''pdf''}"

text \<open>\<^verbatim>\<open>s.rsplit(sep, 1)\<close> for a one-character separator: split at the last occurrence.\<close>

definition rsplit1 :: "char \<Rightarrow> string \<Rightarrow> string list" where
  "rsplit1 sep s =
     (if sep \<in> set s
      then [rev (tl (dropWhile (\<lambda>c. c \<noteq> sep) (rev s))), rev (takeWhile (\<lambda>c. c \<noteq> sep) (rev s))]
      else [s])"

text \<open>
  \<^verbatim>\<open>return '.' in filename and filename.rsplit('.', 1)[1].lower() in ALLOWED_EXTENSIONS\<close>
\<close>

definition allowed_file :: "string \<Rightarrow> bool" where
  "allowed_file filename =
     (CHR ''.'' \<in> set filename \<and> lower (rsplit1 CHR ''.'' filename ! 1) \<in> ALLOWED_EXTENSIONS)"

text \<open>The extension check in the words of the specification.\<close>

definition spec_allowed :: "string \<Rightarrow> bool" where
  "spec_allowed filename =
     (\<exists>base ext. filename = base @ ''.'' @ ext \<and> CHR ''.'' \<notin> set ext \<and> lower ext = ''pdf'')"

section \<open>The server: upload, storage and text extraction\<close>

text \<open>
  The handler \<^verbatim>\<open>upload_file\<close> reads the request, writes to the upload directory and calls
  two libraries. The model passes the state explicitly: the stored files are a map from
  paths to contents, the flashed messages a list. What the libraries do is a parameter:
  \<^verbatim>\<open>secure_filename\<close>, whether \<^verbatim>\<open>file.save\<close> raises at a path, and what PyMuPDF
  finds in a file: \<^verbatim>\<open>fitz.open\<close> raises or gives the pages in document order, and
  \<^verbatim>\<open>page.get_text("text")\<close> raises or returns the page's text.
\<close>

datatype exn = Exception string

type_synonym storage = "string \<rightharpoonup> string"

record app_state =
  files :: storage
  flashes :: "string list"

record libraries =
  secure_filename :: "string \<Rightarrow> string"
  save_raises :: "string \<Rightarrow> exn option"
  fitz_open :: "string option \<Rightarrow> exn + (exn + string) list"

datatype response =
  Redirect string
  | Page "(string \<times> string) option"
  | InternalServerError

fun status :: "response \<Rightarrow> nat" where
  "status (Redirect location) = 302"
| "status (Page embedded) = 200"
| "status InternalServerError = 500"

definition UPLOAD_FOLDER :: string where
  "UPLOAD_FOLDER = ''uploads''"

text \<open>\<^verbatim>\<open>os.path.join(a, b)\<close> on POSIX paths.\<close>

definition path_join :: "string \<Rightarrow> string \<Rightarrow> string" where
  "path_join a b =
     (if b \<noteq> [] \<and> hd b = CHR ''/'' then b
      else if a = [] \<or> last a = CHR ''/'' then a @ b
      else a @ ''/'' @ b)"

text \<open>\<^verbatim>\<open>sep.join(xs)\<close>\<close>

fun join :: "string \<Rightarrow> string list \<Rightarrow> string" where
  "join sep [] = []"
| "join sep [x] = x"
| "join sep (x # y # ys) = x @ sep @ join sep (y # ys)"

text \<open>
  The loop over the pages, with the list \<^verbatim>\<open>all_text\<close> as accumulator; a page whose
  \<^verbatim>\<open>get_text\<close> raises ends the loop with that exception.
  \<^verbatim>\<open>
  for page in doc:
      txt = page.get_text("text")
      if txt:
          all_text.append(txt)
  \<close>
\<close>

fun collect_text :: "(exn + string) list \<Rightarrow> string list \<Rightarrow> exn + string list" where
  "collect_text [] all_text = Inr all_text"
| "collect_text (Inl e # pages) all_text = Inl e"
| "collect_text (Inr txt # pages) all_text =
     collect_text pages (if txt \<noteq> [] then all_text @ [txt] else all_text)"

text \<open>The body of the \<^verbatim>\<open>try\<close> block: open the stored file, collect, join.\<close>

definition extract_text :: "libraries \<Rightarrow> storage \<Rightarrow> string \<Rightarrow> exn + string" where
  "extract_text lib fs path =
     (case fitz_open lib (fs path) of
        Inl e \<Rightarrow> Inl e
      | Inr doc \<Rightarrow>
          (case collect_text doc [] of
             Inl e \<Rightarrow> Inl e
           | Inr all_text \<Rightarrow> Inr (join [CHR 0x0A, CHR 0x0A] all_text)))"

text \<open>\<^verbatim>\<open>file.save(path)\<close>: raises, or the file at \<^verbatim>\<open>path\<close> holds the upload's content.\<close>

definition file_save :: "libraries \<Rightarrow> string \<Rightarrow> string \<Rightarrow> storage \<Rightarrow> exn + storage" where
  "file_save lib path content fs =
     (case save_raises lib path of Some e \<Rightarrow> Inl e | None \<Rightarrow> Inr (fs(path \<mapsto> content)))"

definition flash :: "string \<Rightarrow> app_state \<Rightarrow> app_state" where
  "flash message st = st\<lparr>flashes := flashes st @ [message]\<rparr>"

text \<open>
  The template, as far as the upload goes: the hidden element \<^verbatim>\<open>embeddedRaw\<close> with the
  file name and the raw text is there when \<^verbatim>\<open>raw_text\<close> is not empty.
\<close>

definition render_template :: "string \<Rightarrow> string \<Rightarrow> response" where
  "render_template raw_text filename =
     Page (if raw_text \<noteq> [] then Some (filename, raw_text) else None)"

text \<open>
  The handler of \<^verbatim>\<open>POST /upload\<close>. The request is the form's \<^verbatim>\<open>file\<close> part, if any: its
  file name and content. An exception of \<^verbatim>\<open>file.save\<close> is outside the \<^verbatim>\<open>try\<close> block and
  becomes a 500 response. \<^verbatim>\<open>url_for('index')\<close> is \<^verbatim>\<open>/\<close>; a file object is true when its
  name is not empty.
\<close>

definition upload_file ::
  "libraries \<Rightarrow> (string \<times> string) option \<Rightarrow> app_state \<Rightarrow> response \<times> app_state" where
  "upload_file lib file_part st =
     (case file_part of
        None \<Rightarrow> (Redirect ''/'', flash ''No file part'' st)
      | Some (filename, content) \<Rightarrow>
          if filename = [] then (Redirect ''/'', flash ''No selected file'' st)
          else if filename \<noteq> [] \<and> allowed_file filename then
            (let fname = secure_filename lib filename;
                 path = path_join UPLOAD_FOLDER fname
             in case file_save lib path content (files st) of
                  Inl e \<Rightarrow> (InternalServerError, st)
                | Inr fs \<Rightarrow>
                    (let raw = (case extract_text lib fs path of
                                  Inr text \<Rightarrow> text
                                | Inl (Exception e) \<Rightarrow> ''[Error extracting text: '' @ e @ '']'')
                     in (render_template raw fname, st\<lparr>files := fs\<rparr>)))
          else (Redirect ''/'', flash ''Invalid file type'' st))"

text \<open>An upload is accepted when it passes the three checks of the handler.\<close>

definition accepted :: "(string \<times> string) option \<Rightarrow> bool" where
  "accepted file_part =
     (case file_part of None \<Rightarrow> False
      | Some (filename, content) \<Rightarrow> filename \<noteq> [] \<and> allowed_file filename)"

text \<open>Where an accepted upload is stored.\<close>

definition upload_path :: "libraries \<Rightarrow> string \<Rightarrow> string" where
  "upload_path lib filename = path_join UPLOAD_FOLDER (secure_filename lib filename)"

text \<open>Extraction raises: \<^verbatim>\<open>fitz.open\<close> does, or \<^verbatim>\<open>get_text\<close> does on some page.\<close>

definition extraction_raises :: "libraries \<Rightarrow> string option \<Rightarrow> bool" where
  "extraction_raises lib stored =
     (case fitz_open lib stored of
        Inl e \<Rightarrow> True
      | Inr doc \<Rightarrow> list_ex (\<lambda>p. case p of Inl e \<Rightarrow> True | Inr txt \<Rightarrow> False) doc)"

text \<open>
  The handler of \<^verbatim>\<open>GET /\<close>, where the rejecting branches redirect to:
  \<^verbatim>\<open>render_template_string(TEMPLATE, raw_text=None, filename='')\<close>. \<^verbatim>\<open>None\<close> is as false
  as the empty string in the template's \<^verbatim>\<open>{% if raw_text %}\<close>. The template has no call of
  \<^verbatim>\<open>get_flashed_messages\<close>, so the handler neither reads nor empties the flashed messages.
\<close>

definition index :: "app_state \<Rightarrow> response \<times> app_state" where
  "index st = (render_template [] [], st)"

text \<open>Library behaviours and a state used to run the handler on concrete uploads.\<close>

definition broken_pdf_lib :: libraries where
  "broken_pdf_lib = \<lparr>secure_filename = (\<lambda>s. s), save_raises = (\<lambda>p. None),
     fitz_open = (\<lambda>c. Inl (Exception ''cannot open broken document''))\<rparr>"

definition three_page_lib :: libraries where
  "three_page_lib = \<lparr>secure_filename = (\<lambda>s. s), save_raises = (\<lambda>p. None),
     fitz_open = (\<lambda>c. Inr [Inr ''one'', Inr [], Inr ''three''])\<rparr>"

definition failing_page_lib :: libraries where
  "failing_page_lib = \<lparr>secure_filename = (\<lambda>s. s), save_raises = (\<lambda>p. None),
     fitz_open = (\<lambda>c. Inr [Inr ''one'', Inl (Exception ''page 2 is damaged''), Inr ''three''])\<rparr>"

definition empty_state :: app_state where
  "empty_state = \<lparr>files = Map.empty, flashes = []\<rparr>"

section \<open>The page script: numbers\<close>

text \<open>
  A JavaScript number is an IEEE 754 binary64 value, and \<^verbatim>\<open>/\<close> and \<^verbatim>\<open>*\<close> give the exact
  result rounded to the nearest such value, ties to the even significand. The values are
  modelled as the rationals they denote: \<^term>\<open>fl x\<close> is the binary64 value nearest to
  \<^term>\<open>x\<close>, in the normal range (the script computes with intensities, ratios and lengths
  of tokens, far from overflow and from the subnormal numbers).
\<close>

text \<open>The binary exponent of a positive rational: \<^term>\<open>2 powi e \<le> x \<and> x < 2 powi (e + 1)\<close>.\<close>

definition exponent :: "rat \<Rightarrow> int" where
  "exponent x =
     (let (a, b) = quotient_of x; d = bitlen a - bitlen b
      in if 2 powi d \<le> x then d else d - 1)"

definition round_half_even :: "rat \<Rightarrow> int" where
  "round_half_even q =
     (let f = \<lfloor>q\<rfloor>; d = q - of_int f
      in if d < 1 / 2 then f else if 1 / 2 < d then f + 1 else if even f then f else f + 1)"

text \<open>Rounding to 53 significant bits.\<close>

definition fl :: "rat \<Rightarrow> rat" where
  "fl x =
     (if x = 0 then 0
      else (let u = 2 powi (exponent \<bar>x\<bar> - 52)
            in sgn x * of_int (round_half_even (\<bar>x\<bar> / u)) * u))"

section \<open>The page script: escaping and the bionic formatter\<close>

text \<open>\<^verbatim>\<open>s.replace(/c/g, r)\<close> for a single character \<^verbatim>\<open>c\<close>.\<close>

definition replace_all :: "char \<Rightarrow> string \<Rightarrow> string \<Rightarrow> string" where
  "replace_all c r s = concat (map (\<lambda>x. if x = c then r else [x]) s)"

text \<open>
  \<^verbatim>\<open>
  function escapeHtml(s){
    return s.replace(/&/g,'&amp;').replace(/</g,'&lt;').replace(/>/g,'&gt;')
             .replace(/"/g,'&quot;').replace(/'/g,'&#039;');
  }
  \<close>
\<close>

definition escapeHtml :: "string \<Rightarrow> string" where
  "escapeHtml s =
     replace_all (CHR 0x27) ''&#039;''
       (replace_all (CHR 0x22) ''&quot;''
          (replace_all CHR ''>'' ''&gt;''
             (replace_all CHR ''<'' ''&lt;''
                (replace_all CHR ''&'' ''&amp;'' s))))"

text \<open>
  \<^verbatim>\<open>text.split(/(\s+)/)\<close>: the pieces between the runs of white space and, because of the
  capturing group, the runs themselves, in order. The list starts and ends with a piece
  that is not a run of white space, possibly the empty string.
\<close>

function split_space :: "string \<Rightarrow> string list" where
  "split_space s =
     (if dropWhile (\<lambda>c. \<not> is_space c) s = [] then [s]
      else takeWhile (\<lambda>c. \<not> is_space c) s
           # takeWhile is_space (dropWhile (\<lambda>c. \<not> is_space c) s)
           # split_space (dropWhile is_space (dropWhile (\<lambda>c. \<not> is_space c) s)))"
  by pat_completeness auto
termination
proof (relation "measure length")
  show "wf (measure length)" by simp
next
  fix s :: string
  let ?r = "dropWhile (\<lambda>c. \<not> is_space c) s"
  assume "?r \<noteq> []"
  then have "is_space (hd ?r)" using hd_dropWhile [of "\<lambda>c. \<not> is_space c" s] by simp
  with \<open>?r \<noteq> []\<close> have "dropWhile is_space ?r = dropWhile is_space (tl ?r)"
    by (cases ?r) simp_all
  moreover have "length (dropWhile is_space (tl ?r)) \<le> length (tl ?r)"
    by (rule length_dropWhile_le)
  moreover have "length (tl ?r) < length ?r" using \<open>?r \<noteq> []\<close> by simp
  moreover have "length ?r \<le> length s" by (rule length_dropWhile_le)
  ultimately show "(dropWhile is_space ?r, s) \<in> measure length" by simp
qed

declare split_space.simps [simp del]

text \<open>\<^verbatim>\<open>const ratio = Math.min(Math.max(ratioPercent/100, 0.05), 0.9);\<close>\<close>

definition effective_ratio :: "int \<Rightarrow> rat" where
  "effective_ratio ratioPercent =
     min (max (fl (of_int ratioPercent / 100)) (fl (5 / 100))) (fl (9 / 10))"

text \<open>\<^verbatim>\<open>const k = Math.max(1, Math.ceil(n * ratio));\<close>\<close>

definition bold_length :: "nat \<Rightarrow> rat \<Rightarrow> nat" where
  "bold_length n ratio = nat (max 1 \<lceil>fl (of_nat n * ratio)\<rceil>)"

text \<open>
  The function mapped over the tokens. \<^verbatim>\<open>/^\s+$/\<close> holds of a token that is not empty and
  is all white space. \<^verbatim>\<open>/^([\p{L}\p{N}']+)(.*)$/u\<close> matches when the token starts with a
  character of the class and, as \<^verbatim>\<open>.\<close> matches no line terminator, none follows the
  leading run of the class; the first group is then that whole run.
  \<^verbatim>\<open>
  if (/^\s+$/.test(token)) return token;
  const m = token.match(/^([\p{L}\p{N}']+)(.*)$/u);
  if (!m) return escapeHtml(token);
  const core = m[1];
  const rest = m[2] || '';
  const n = core.length;
  const k = Math.max(1, Math.ceil(n * ratio));
  const first = escapeHtml(core.slice(0,k));
  const last = escapeHtml(core.slice(k));
  return `<span class="word"><span class="bionic-strong">${first}</span>${last}${escapeHtml(rest)}</span>`;
  \<close>
\<close>

definition wrap_token :: "rat \<Rightarrow> string \<Rightarrow> string" where
  "wrap_token ratio token =
     (if token \<noteq> [] \<and> list_all is_space token then token
      else
        (let core = takeWhile is_core_char token;
             rest = dropWhile is_core_char token
         in if core = [] \<or> list_ex is_line_terminator rest then escapeHtml token
            else
              (let n = length core;
                   k = bold_length n ratio;
                   first = escapeHtml (take k core);
                   last = escapeHtml (drop k core)
               in ''<span class=\"word\"><span class=\"bionic-strong\">'' @ first @ ''</span>''
                  @ last @ escapeHtml rest @ ''</span>'')))"

text \<open>\<^verbatim>\<open>return text.split(/(\s+)/).map(token => ...).join('');\<close>\<close>

definition bionicWrapText :: "string \<Rightarrow> int \<Rightarrow> string" where
  "bionicWrapText text ratioPercent =
     (let ratio = effective_ratio ratioPercent
      in concat (map (wrap_token ratio) (split_space text)))"

text \<open>
  \<^verbatim>\<open>renderText\<close>, as far as the HTML goes that it assigns to \<^verbatim>\<open>innerHTML\<close> of the text
  container: \<^verbatim>\<open>const html = bionicWrapText(escapeHtml(raw), intensity);\<close>
\<close>

definition renderText :: "string \<Rightarrow> int \<Rightarrow> string" where
  "renderText raw intensity = bionicWrapText (escapeHtml raw) intensity"

section \<open>What the specification compares the script with\<close>

text \<open>
  The text that a browser shows for a piece of HTML made of tags and character data: the
  tags are dropped and the five entities that \<^verbatim>\<open>escapeHtml\<close> writes are decoded, once.
  This is what is left of the formatter's output when the markup is taken away.
\<close>

function html_text :: "string \<Rightarrow> string" where
  "html_text [] = []"
| "html_text (c # s) =
     (if c = CHR ''<'' then html_text (drop 1 (dropWhile (\<lambda>x. x \<noteq> CHR ''>'') s))
      else if c = CHR ''&'' \<and> take 4 s = ''amp;'' then CHR ''&'' # html_text (drop 4 s)
      else if c = CHR ''&'' \<and> take 3 s = ''lt;'' then CHR ''<'' # html_text (drop 3 s)
      else if c = CHR ''&'' \<and> take 3 s = ''gt;'' then CHR ''>'' # html_text (drop 3 s)
      else if c = CHR ''&'' \<and> take 5 s = ''quot;'' then CHR 0x22 # html_text (drop 5 s)
      else if c = CHR ''&'' \<and> take 5 s = ''#039;'' then CHR 0x27 # html_text (drop 5 s)
      else c # html_text s)"
  by pat_completeness auto
termination
  by (relation "measure length")
     (auto intro: le_imp_less_Suc order_trans [OF diff_le_self length_dropWhile_le])

text \<open>
  The length of the bold prefix in the words of the specification, \<^verbatim>\<open>max(1, ceil(n * r))\<close>,
  with the product of the rationals and no rounding.
\<close>

definition spec_bold_length :: "nat \<Rightarrow> rat \<Rightarrow> nat" where
  "spec_bold_length n r = nat (max 1 \<lceil>of_nat n * r\<rceil>)"

section \<open>The page script: styles\<close>

text \<open>
  \<^verbatim>\<open>applyStyles\<close> reads the two sliders and the check box and writes the inline style of
  the text container and two labels. The \<^verbatim>\<open>value\<close> of a slider is the decimal numeral of a
  natural number (the sliders go from 12 to 28 in steps of 1): the model holds the number,
  \<^verbatim>\<open>fontSize + 'px'\<close> appends to its numeral, and \<^verbatim>\<open>/\<close> converts both operands to numbers.
\<close>

definition digit :: "nat \<Rightarrow> char" where
  "digit d = char_of (48 + d)"

text \<open>The decimal numeral of a natural number.\<close>

fun show_nat :: "nat \<Rightarrow> string" where
  "show_nat n = (if n < 10 then [digit n] else show_nat (n div 10) @ [digit (n mod 10)])"

declare show_nat.simps [simp del]

text \<open>
  The numbers that a quotient of two natural numbers can be: a binary64 value, or, when
  the divisor is 0, \<^verbatim>\<open>Infinity\<close> or \<^verbatim>\<open>NaN\<close>.
\<close>

datatype number = Num rat | Infinity | NaN

definition quotient :: "nat \<Rightarrow> nat \<Rightarrow> number" where
  "quotient a b =
     (if b = 0 then (if a = 0 then NaN else Infinity) else Num (fl (of_nat a / of_nat b)))"

text \<open>
  \<^verbatim>\<open>x.toFixed(2)\<close> for a number that is not negative and is below \<^verbatim>\<open>1e21\<close>: with \<^verbatim>\<open>n\<close> the
  integer for which \<^verbatim>\<open>n / 100 - x\<close> is nearest to zero, the larger one when there are two,
  the digits of \<^verbatim>\<open>n\<close> with a point before the last two, and a zero before the point when
  \<^verbatim>\<open>n\<close> has fewer than three digits.
\<close>

definition hundredths :: "rat \<Rightarrow> int" where
  "hundredths x = \<lfloor>x * 100 + 1 / 2\<rfloor>"

fun toFixed2 :: "number \<Rightarrow> string" where
  "toFixed2 (Num x) =
     (let n = nat (hundredths x)
      in show_nat (n div 100) @ ''.'' @ [digit (n div 10 mod 10), digit (n mod 10)])"
| "toFixed2 Infinity = ''Infinity''"
| "toFixed2 NaN = ''NaN''"

text \<open>
  The inline style of the text container (the strings that the script assigns to its
  properties), the state of the controls, and the page.
\<close>

record style =
  fontSize :: string
  lineHeight :: string
  color :: string
  opacity :: string
  letterSpacing :: string

record controls =
  fontSize_value :: nat
  lineHeight_value :: nat
  softToggle_checked :: bool

record page =
  textContainer_style :: style
  fontSizeLabel :: string
  lineHeightLabel :: string

text \<open>
  \<^verbatim>\<open>
  function updateLineHeightLabel(){
    const lineHeightPx = document.getElementById('lineHeight').value;
    document.getElementById('lineHeightLabel').innerText = (lineHeightPx / 16).toFixed(2);
  }
  \<close>
\<close>

definition updateLineHeightLabel :: "controls \<Rightarrow> page \<Rightarrow> page" where
  "updateLineHeightLabel c p =
     (let lineHeightPx = lineHeight_value c
      in p\<lparr>lineHeightLabel := toFixed2 (quotient lineHeightPx 16)\<rparr>)"

text \<open>The page as it is loaded: no inline style, the labels as in the template.\<close>

definition blank_page :: page where
  "blank_page = \<lparr>textContainer_style =
       \<lparr>fontSize = [], lineHeight = [], color = [], opacity = [], letterSpacing = []\<rparr>,
     fontSizeLabel = ''16'', lineHeightLabel = ''1.5''\<rparr>"

text \<open>
  \<^verbatim>\<open>
  function applyStyles(){
    const textContainer = document.getElementById('textContainer');
    const fontSize = document.getElementById('fontSize').value;
    const lineHeightPx = document.getElementById('lineHeight').value;
    textContainer.style.fontSize = fontSize + 'px';
    textContainer.style.lineHeight = (lineHeightPx / fontSize).toFixed(2);
    const soft = document.getElementById('softToggle').checked;
    if(soft){
      textContainer.style.color = 'var(--soft-color)';
      textContainer.style.opacity = '0.95';
      textContainer.style.letterSpacing = '0.2px';
    } else {
      textContainer.style.color = 'var(--text)';
      textContainer.style.opacity = '1';
      textContainer.style.letterSpacing = '0';
    }
    document.getElementById('fontSizeLabel').innerText = fontSize;
    document.getElementById('lineHeightLabel').innerText = (lineHeightPx / 16).toFixed(2);
  }
  \<close>
\<close>

definition applyStyles :: "controls \<Rightarrow> page \<Rightarrow> page" where
  "applyStyles c p =
     (let fs = fontSize_value c;
          lineHeightPx = lineHeight_value c;
          s1 = (textContainer_style p)\<lparr>fontSize := show_nat fs @ ''px''\<rparr>;
          s2 = s1\<lparr>lineHeight := toFixed2 (quotient lineHeightPx fs)\<rparr>;
          soft = softToggle_checked c;
          s3 = (if soft
                then s2\<lparr>color := ''var(--soft-color)'', opacity := ''0.95'',
                        letterSpacing := ''0.2px''\<rparr>
                else s2\<lparr>color := ''var(--text)'', opacity := ''1'', letterSpacing := ''0''\<rparr>)
      in p\<lparr>textContainer_style := s3,
           fontSizeLabel := show_nat fs,
           lineHeightLabel := toFixed2 (quotient lineHeightPx 16)\<rparr>)"

text \<open>States of the controls used to run \<^verbatim>\<open>applyStyles\<close>.\<close>

definition soft_16_24 :: controls where
  "soft_16_24 = \<lparr>fontSize_value = 16, lineHeight_value = 24, softToggle_checked = True\<rparr>"

definition plain_20_25 :: controls where
  "plain_20_25 = \<lparr>fontSize_value = 20, lineHeight_value = 25, softToggle_checked = False\<rparr>"

section \<open>Properties of the extension check\<close>

lemma rsplit1_decompose:
  assumes "sep \<in> set s"
  shows "\<exists>base ext. rsplit1 sep s = [base, ext] \<and> s = base @ [sep] @ ext \<and> sep \<notin> set ext"
proof -
  let ?r = "rev s"
  let ?ext = "rev (takeWhile (\<lambda>c. c \<noteq> sep) ?r)"
  let ?d = "dropWhile (\<lambda>c. c \<noteq> sep) ?r"
  from assms have "?d \<noteq> []" by simp
  then have hd: "hd ?d = sep" using hd_dropWhile [of "\<lambda>c. c \<noteq> sep" ?r] by simp
  with \<open>?d \<noteq> []\<close> have d: "?d = sep # tl ?d" by (metis list.collapse)
  have "?r = takeWhile (\<lambda>c. c \<noteq> sep) ?r @ ?d" by simp
  then have "rev ?r = rev ?d @ ?ext" by (metis rev_append)
  then have "s = rev (tl ?d) @ [sep] @ ?ext" using d by (metis append.assoc rev.simps(2) rev_rev_ident)
  moreover have "sep \<notin> set ?ext" by (auto dest: set_takeWhileD)
  ultimately show ?thesis using assms by (simp add: rsplit1_def)
qed

lemma rsplit1_unique:
  assumes "s = base @ [sep] @ ext" "sep \<notin> set ext"
  shows "rsplit1 sep s = [base, ext]"
proof -
  have r: "rev s = rev ext @ sep # rev base" using assms by simp
  have t: "takeWhile (\<lambda>c. c \<noteq> sep) (rev s) = rev ext"
    unfolding r using assms(2) by (subst takeWhile_append2) auto
  have d: "dropWhile (\<lambda>c. c \<noteq> sep) (rev s) = sep # rev base"
    unfolding r using assms(2) by (subst dropWhile_append2) auto
  have "sep \<in> set s" using assms by simp
  then show ?thesis by (simp add: rsplit1_def t d)
qed

text \<open>
  C10: the extension check accepts a filename exactly when it contains a dot and the part
  after the last dot lowercases to \<^verbatim>\<open>pdf\<close>; the name \<^verbatim>\<open>pdf\<close> (no dot) is rejected and the
  name \<^verbatim>\<open>.pdf\<close> (empty base) is accepted.
\<close>

theorem allowed_file_iff_last_extension_pdf:
  "(allowed_file filename \<longleftrightarrow> spec_allowed filename)
   \<and> \<not> allowed_file ''pdf'' \<and> allowed_file ''.pdf''"
proof (intro conjI)
  show "allowed_file filename \<longleftrightarrow> spec_allowed filename"
  proof
    assume a: "allowed_file filename"
    then have "CHR ''.'' \<in> set filename" by (simp add: allowed_file_def)
    from rsplit1_decompose [OF this] obtain base ext where
      s: "rsplit1 CHR ''.'' filename = [base, ext]" "filename = base @ ''.'' @ ext"
         "CHR ''.'' \<notin> set ext"
      by auto
    from a s(1) have "lower ext = ''pdf''" by (simp add: allowed_file_def ALLOWED_EXTENSIONS_def)
    with s show "spec_allowed filename" unfolding spec_allowed_def by blast
  next
    assume "spec_allowed filename"
    then obtain base ext where
      s: "filename = base @ ''.'' @ ext" "CHR ''.'' \<notin> set ext" "lower ext = ''pdf''"
      unfolding spec_allowed_def by blast
    from rsplit1_unique [of filename base "CHR ''.''" ext] s
    have "rsplit1 CHR ''.'' filename = [base, ext]" by simp
    with s show "allowed_file filename" by (simp add: allowed_file_def ALLOWED_EXTENSIONS_def)
  qed
  show "\<not> allowed_file ''pdf''" by (simp add: allowed_file_def)
  show "allowed_file ''.pdf''" by code_simp
qed

theorem allowed_file_iff_last_extension_pdf_witness:
  "allowed_file ''Report.v2.PDF'' \<and> spec_allowed ''Report.v2.PDF''
   \<and> \<not> allowed_file ''pdf'' \<and> allowed_file ''.pdf''"
proof -
  have "allowed_file ''Report.v2.PDF''" by code_simp
  then show ?thesis using allowed_file_iff_last_extension_pdf [of "''Report.v2.PDF''"] by simp
qed

section \<open>Properties of the upload handler\<close>

lemma collect_text_all_returned:
  "collect_text (map Inr texts) all_text = Inr (all_text @ filter (\<lambda>t. t \<noteq> []) texts)"
  by (induction texts arbitrary: all_text) simp_all

lemma collect_text_raising:
  "list_ex (\<lambda>p. case p of Inl e \<Rightarrow> True | Inr txt \<Rightarrow> False) doc
   \<Longrightarrow> \<exists>e. collect_text doc all_text = Inl e"
proof (induction doc arbitrary: all_text)
  case Nil
  then show ?case by simp
next
  case (Cons p doc)
  then show ?case by (cases p) simp_all
qed

lemma extract_text_raising:
  assumes "extraction_raises lib (fs path)"
  shows "\<exists>e. extract_text lib fs path = Inl (Exception e)"
proof (cases "fitz_open lib (fs path)")
  case (Inl e)
  then show ?thesis by (cases e) (simp add: extract_text_def)
next
  case (Inr doc)
  with assms have "list_ex (\<lambda>p. case p of Inl e \<Rightarrow> True | Inr txt \<Rightarrow> False) doc"
    by (simp add: extraction_raises_def)
  from collect_text_raising [OF this] obtain e where "collect_text doc [] = Inl e" by blast
  with Inr show ?thesis by (cases e) (simp add: extract_text_def)
qed

lemma upload_file_accepted:
  assumes "filename \<noteq> []" "allowed_file filename"
    and "save_raises lib (upload_path lib filename) = None"
  shows "upload_file lib (Some (filename, content)) st =
           (render_template
              (case extract_text lib ((files st)(upload_path lib filename \<mapsto> content))
                      (upload_path lib filename) of
                 Inr text \<Rightarrow> text
               | Inl (Exception e) \<Rightarrow> ''[Error extracting text: '' @ e @ '']'')
              (secure_filename lib filename),
            st\<lparr>files := (files st)(upload_path lib filename \<mapsto> content)\<rparr>)"
  using assms by (simp add: upload_file_def file_save_def upload_path_def Let_def)

lemma length_join:
  "length (join sep xs) = sum_list (map length xs) + length sep * (length xs - 1)"
  by (induction sep xs rule: join.induct) simp_all

lemma a_pdf_accepted: "accepted (Some (''a.pdf'', ''xyz''))"
  by code_simp

lemma a_pdf_saved: "save_raises broken_pdf_lib (upload_path broken_pdf_lib ''a.pdf'') = None"
  by (simp add: broken_pdf_lib_def)

lemma a_pdf_broken: "extraction_raises broken_pdf_lib (Some ''xyz'')"
  by (simp add: broken_pdf_lib_def extraction_raises_def)

lemma collect_text_first_raising:
  "collect_text (map Inr texts @ Inl e # later) all_text = Inl e"
  by (induction texts arbitrary: all_text) simp_all

lemma first_raising_page:
  assumes "list_ex (\<lambda>p. case p of Inl e \<Rightarrow> True | Inr txt \<Rightarrow> False) doc"
  shows "\<exists>texts e later. doc = map Inr texts @ Inl e # later"
  using assms
proof (induction doc)
  case Nil
  then show ?case by simp
next
  case (Cons p doc)
  show ?case
  proof (cases p)
    case (Inl e)
    then have "p # doc = map Inr [] @ Inl e # doc" by simp
    then show ?thesis by blast
  next
    case (Inr t)
    with Cons.prems have "list_ex (\<lambda>p. case p of Inl e \<Rightarrow> True | Inr txt \<Rightarrow> False) doc"
      by simp
    from Cons.IH [OF this] obtain texts e later where "doc = map Inr texts @ Inl e # later"
      by blast
    with Inr have "p # doc = map Inr (t # texts) @ Inl e # later" by simp
    then show ?thesis by blast
  qed
qed

text \<open>
  Extraction raises exactly when \<^verbatim>\<open>fitz.open\<close> raises, or the document opens and, after
  some pages that gave their text, \<^verbatim>\<open>get_text\<close> raises on the next page.
\<close>

lemma extraction_raises_cases:
  "extraction_raises lib stored \<longleftrightarrow>
     (\<exists>msg. fitz_open lib stored = Inl (Exception msg)
            \<or> (\<exists>texts later.
                  fitz_open lib stored = Inr (map Inr texts @ Inl (Exception msg) # later)))"
proof
  assume r: "extraction_raises lib stored"
  show "\<exists>msg. fitz_open lib stored = Inl (Exception msg)
            \<or> (\<exists>texts later.
                  fitz_open lib stored = Inr (map Inr texts @ Inl (Exception msg) # later))"
  proof (cases "fitz_open lib stored")
    case (Inl e)
    then show ?thesis by (cases e) simp
  next
    case (Inr doc)
    with r have "list_ex (\<lambda>p. case p of Inl e \<Rightarrow> True | Inr txt \<Rightarrow> False) doc"
      by (simp add: extraction_raises_def)
    from first_raising_page [OF this] obtain texts e later
      where d: "doc = map Inr texts @ Inl e # later"
      by blast
    obtain msg where "e = Exception msg" by (cases e)
    with d Inr show ?thesis by auto
  qed
next
  assume "\<exists>msg. fitz_open lib stored = Inl (Exception msg)
            \<or> (\<exists>texts later.
                  fitz_open lib stored = Inr (map Inr texts @ Inl (Exception msg) # later))"
  then show "extraction_raises lib stored"
    by (auto simp add: extraction_raises_def)
qed

lemma extract_text_raised:
  assumes "fitz_open lib (fs path) = Inl e
           \<or> (\<exists>texts later. fitz_open lib (fs path) = Inr (map Inr texts @ Inl e # later))"
  shows "extract_text lib fs path = Inl e"
  using assms by (auto simp add: extract_text_def collect_text_first_raising)

lemma a_pdf_failing_page_saved:
  "save_raises failing_page_lib (upload_path failing_page_lib ''a.pdf'') = None"
  by (simp add: failing_page_lib_def)

text \<open>
  C5: for an accepted upload that was saved, when \<^verbatim>\<open>fitz.open\<close> raises an exception whose
  message is \<^verbatim>\<open>msg\<close>, or the document opens and \<^verbatim>\<open>get_text\<close> raises that exception on the
  first page that does not give its text, the exception is caught: the handler answers
  with the page, status 200 and not 500, and the text embedded in the page for the stored
  file name is \<^verbatim>\<open>[Error extracting text: msg]\<close>, with the message of that very exception.
\<close>

theorem extraction_failure_gives_placeholder_page:
  assumes "accepted (Some (filename, content))"
    and "save_raises lib (upload_path lib filename) = None"
    and "fitz_open lib (Some content) = Inl (Exception msg)
         \<or> (\<exists>texts later.
               fitz_open lib (Some content) = Inr (map Inr texts @ Inl (Exception msg) # later))"
  shows "fst (upload_file lib (Some (filename, content)) st)
           = Page (Some (secure_filename lib filename, ''[Error extracting text: '' @ msg @ '']''))
         \<and> status (fst (upload_file lib (Some (filename, content)) st)) = 200"
proof -
  let ?path = "upload_path lib filename"
  let ?fs = "(files st)(?path \<mapsto> content)"
  from assms(1) have a: "filename \<noteq> []" "allowed_file filename" by (simp_all add: accepted_def)
  from assms(3) have "fitz_open lib (?fs ?path) = Inl (Exception msg)
         \<or> (\<exists>texts later.
               fitz_open lib (?fs ?path) = Inr (map Inr texts @ Inl (Exception msg) # later))"
    by simp
  then have e: "extract_text lib ?fs ?path = Inl (Exception msg)"
    by (rule extract_text_raised)
  have "fst (upload_file lib (Some (filename, content)) st)
          = Page (Some (secure_filename lib filename, ''[Error extracting text: '' @ msg @ '']''))"
    by (simp add: upload_file_accepted [OF a assms(2)] e render_template_def)
  then show ?thesis by simp
qed

theorem extraction_failure_gives_placeholder_page_witness:
  "accepted (Some (''a.pdf'', ''xyz''))
   \<and> save_raises broken_pdf_lib (upload_path broken_pdf_lib ''a.pdf'') = None
   \<and> fitz_open broken_pdf_lib (Some ''xyz'') = Inl (Exception ''cannot open broken document'')
   \<and> fst (upload_file broken_pdf_lib (Some (''a.pdf'', ''xyz'')) empty_state)
       = Page (Some (''a.pdf'', ''[Error extracting text: cannot open broken document]''))
   \<and> status (fst (upload_file broken_pdf_lib (Some (''a.pdf'', ''xyz'')) empty_state)) = 200
   \<and> save_raises failing_page_lib (upload_path failing_page_lib ''a.pdf'') = None
   \<and> fitz_open failing_page_lib (Some ''xyz'')
       = Inr (map Inr [''one''] @ Inl (Exception ''page 2 is damaged'') # [Inr ''three''])
   \<and> fst (upload_file failing_page_lib (Some (''a.pdf'', ''xyz'')) empty_state)
       = Page (Some (''a.pdf'', ''[Error extracting text: page 2 is damaged]''))
   \<and> status (fst (upload_file failing_page_lib (Some (''a.pdf'', ''xyz'')) empty_state)) = 200"
proof -
  have o: "fitz_open broken_pdf_lib (Some ''xyz'') = Inl (Exception ''cannot open broken document'')"
    by (simp add: broken_pdf_lib_def)
  have p: "fitz_open failing_page_lib (Some ''xyz'')
             = Inr (map Inr [''one''] @ Inl (Exception ''page 2 is damaged'') # [Inr ''three''])"
    by (simp add: failing_page_lib_def)
  have n1: "secure_filename broken_pdf_lib ''a.pdf'' = ''a.pdf''"
    by (simp add: broken_pdf_lib_def)
  have n2: "secure_filename failing_page_lib ''a.pdf'' = ''a.pdf''"
    by (simp add: failing_page_lib_def)
  from o have "fitz_open broken_pdf_lib (Some ''xyz'') = Inl (Exception ''cannot open broken document'')
         \<or> (\<exists>texts later. fitz_open broken_pdf_lib (Some ''xyz'')
               = Inr (map Inr texts @ Inl (Exception ''cannot open broken document'') # later))"
    by (rule disjI1)
  from extraction_failure_gives_placeholder_page
         [OF a_pdf_accepted a_pdf_saved this, of empty_state]
  have r1: "fst (upload_file broken_pdf_lib (Some (''a.pdf'', ''xyz'')) empty_state)
       = Page (Some (''a.pdf'', ''[Error extracting text: cannot open broken document]''))
   \<and> status (fst (upload_file broken_pdf_lib (Some (''a.pdf'', ''xyz'')) empty_state)) = 200"
    by (simp add: n1)
  from p have "fitz_open failing_page_lib (Some ''xyz'') = Inl (Exception ''page 2 is damaged'')
         \<or> (\<exists>texts later. fitz_open failing_page_lib (Some ''xyz'')
               = Inr (map Inr texts @ Inl (Exception ''page 2 is damaged'') # later))"
    by blast
  from extraction_failure_gives_placeholder_page
         [OF a_pdf_accepted a_pdf_failing_page_saved this, of empty_state]
  have r2: "fst (upload_file failing_page_lib (Some (''a.pdf'', ''xyz'')) empty_state)
       = Page (Some (''a.pdf'', ''[Error extracting text: page 2 is damaged]''))
   \<and> status (fst (upload_file failing_page_lib (Some (''a.pdf'', ''xyz'')) empty_state)) = 200"
    by (simp add: n2)
  from a_pdf_accepted a_pdf_saved a_pdf_failing_page_saved o p r1 r2 show ?thesis
    by simp
qed

lemma txt_not_allowed: "\<not> allowed_file (base @ ''.txt'')"
proof -
  have "rsplit1 CHR ''.'' (base @ ''.txt'') = [base, ''txt'']"
    by (rule rsplit1_unique) simp_all
  moreover have "lower ''txt'' \<noteq> ''pdf''" by code_simp
  ultimately show ?thesis by (simp add: allowed_file_def ALLOWED_EXTENSIONS_def)
qed

text \<open>
  C6: a request with no file part, with an empty file name, or with a file name that the
  extension check refuses is answered with a redirect (302) to \<^verbatim>\<open>/\<close>; the stored files are
  unchanged, and the handler appends its message (\<^verbatim>\<open>No file part\<close>, \<^verbatim>\<open>No selected file\<close> or
  \<^verbatim>\<open>Invalid file type\<close>) to the flashed messages. Every file name that ends in \<^verbatim>\<open>.txt\<close> is
  refused. The message is not shown: the page that \<^verbatim>\<open>/\<close> serves after the redirect is the
  page it served before the request, and the message stays among the flashed ones.
\<close>

theorem rejected_upload_message_is_not_shown:
  assumes "file_part = None \<and> message = ''No file part''
           \<or> (\<exists>content. file_part = Some ([], content)) \<and> message = ''No selected file''
           \<or> (\<exists>filename content. file_part = Some (filename, content) \<and> filename \<noteq> []
                  \<and> \<not> allowed_file filename) \<and> message = ''Invalid file type''"
  shows "upload_file lib file_part st = (Redirect ''/'', st\<lparr>flashes := flashes st @ [message]\<rparr>)
         \<and> status (fst (upload_file lib file_part st)) = 302
         \<and> files (snd (upload_file lib file_part st)) = files st
         \<and> fst (index (snd (upload_file lib file_part st))) = Page None
         \<and> fst (index (snd (upload_file lib file_part st))) = fst (index st)
         \<and> flashes (snd (index (snd (upload_file lib file_part st)))) = flashes st @ [message]
         \<and> \<not> allowed_file (base @ ''.txt'')"
proof -
  have u: "upload_file lib file_part st = (Redirect ''/'', st\<lparr>flashes := flashes st @ [message]\<rparr>)"
    using assms by (auto simp add: upload_file_def flash_def)
  have i: "\<And>s. index s = (Page None, s)" by (simp add: index_def render_template_def)
  from u i txt_not_allowed [of base] show ?thesis by simp
qed

theorem rejected_upload_message_is_not_shown_witness:
  "\<not> allowed_file ''notes.txt''
   \<and> upload_file broken_pdf_lib (Some (''notes.txt'', ''hello'')) empty_state
       = (Redirect ''/'', empty_state\<lparr>flashes := [''Invalid file type'']\<rparr>)
   \<and> files (snd (upload_file broken_pdf_lib (Some (''notes.txt'', ''hello'')) empty_state))
       = Map.empty
   \<and> index (snd (upload_file broken_pdf_lib (Some (''notes.txt'', ''hello'')) empty_state))
       = (Page None, empty_state\<lparr>flashes := [''Invalid file type'']\<rparr>)
   \<and> fst (index (snd (upload_file broken_pdf_lib (Some (''notes.txt'', ''hello'')) empty_state)))
       = fst (index empty_state)"
proof -
  have n: "\<not> allowed_file ''notes.txt''" by code_simp
  then have "Some (''notes.txt'', ''hello'') = None \<and> ''Invalid file type'' = ''No file part''
           \<or> (\<exists>content. Some (''notes.txt'', ''hello'') = Some ([], content))
               \<and> ''Invalid file type'' = ''No selected file''
           \<or> (\<exists>filename content. Some (''notes.txt'', ''hello'') = Some (filename, content)
                  \<and> filename \<noteq> [] \<and> \<not> allowed_file filename)
               \<and> ''Invalid file type'' = ''Invalid file type''"
    by simp
  from rejected_upload_message_is_not_shown [OF this, of broken_pdf_lib empty_state] n
  show ?thesis by (simp add: empty_state_def index_def render_template_def)
qed

text \<open>
  C8: when the stored PDF opens and every page gives its text, the extracted text is the
  texts of the pages that are not empty, in document order, joined with two newlines; its
  length is the length of all page texts plus two characters between each two pages that
  are not empty, so an empty page adds nothing.
\<close>

theorem pages_joined_in_order_skipping_empty:
  assumes "fitz_open lib (fs path) = Inr (map Inr texts)"
  shows "extract_text lib fs path
           = Inr (join [CHR 0x0A, CHR 0x0A] (filter (\<lambda>t. t \<noteq> []) texts))
         \<and> length (join [CHR 0x0A, CHR 0x0A] (filter (\<lambda>t. t \<noteq> []) texts))
           = sum_list (map length texts) + 2 * (length (filter (\<lambda>t. t \<noteq> []) texts) - 1)"
proof -
  have e: "extract_text lib fs path
             = Inr (join [CHR 0x0A, CHR 0x0A] (filter (\<lambda>t. t \<noteq> []) texts))"
    using assms by (simp add: extract_text_def collect_text_all_returned)
  have "sum_list (map length (filter (\<lambda>t. t \<noteq> []) texts)) = sum_list (map length texts)"
    by (induction texts) simp_all
  with e show ?thesis by (simp add: length_join)
qed

theorem pages_joined_in_order_skipping_empty_witness:
  "fitz_open three_page_lib (Map.empty ''uploads/a.pdf'') = Inr (map Inr [''one'', [], ''three''])
   \<and> extract_text three_page_lib Map.empty ''uploads/a.pdf''
       = Inr [CHR ''o'', CHR ''n'', CHR ''e'', CHR 0x0A, CHR 0x0A,
              CHR ''t'', CHR ''h'', CHR ''r'', CHR ''e'', CHR ''e'']"
proof -
  have f: "fitz_open three_page_lib (Map.empty ''uploads/a.pdf'')
             = Inr (map Inr [''one'', [], ''three''])"
    by (simp add: three_page_lib_def)
  from pages_joined_in_order_skipping_empty [OF f] f show ?thesis by simp
qed

text \<open>
  C9: the upload is written before the text is extracted, and the error path of the
  extraction does not remove it: for an accepted upload that was saved, when extraction
  raises, the stored files after the request are those before it with the upload's
  content at its path.
\<close>

theorem saved_file_remains_after_extraction_error:
  assumes "accepted (Some (filename, content))"
    and "save_raises lib (upload_path lib filename) = None"
    and "extraction_raises lib (Some content)"
  shows "files (snd (upload_file lib (Some (filename, content)) st))
           = (files st)(upload_path lib filename \<mapsto> content)
         \<and> files (snd (upload_file lib (Some (filename, content)) st)) (upload_path lib filename)
           = Some content"
proof -
  from assms(1) have a: "filename \<noteq> []" "allowed_file filename" by (simp_all add: accepted_def)
  show ?thesis by (simp add: upload_file_accepted [OF a assms(2)])
qed

theorem saved_file_remains_after_extraction_error_witness:
  "accepted (Some (''a.pdf'', ''xyz''))
   \<and> save_raises broken_pdf_lib (upload_path broken_pdf_lib ''a.pdf'') = None
   \<and> extraction_raises broken_pdf_lib (Some ''xyz'')
   \<and> files (snd (upload_file broken_pdf_lib (Some (''a.pdf'', ''xyz'')) empty_state))
         ''uploads/a.pdf''
       = Some ''xyz''"
proof -
  have p: "upload_path broken_pdf_lib ''a.pdf'' = ''uploads/a.pdf''"
    by (simp add: upload_path_def broken_pdf_lib_def path_join_def UPLOAD_FOLDER_def)
  from saved_file_remains_after_extraction_error
         [OF a_pdf_accepted a_pdf_saved a_pdf_broken, of empty_state]
       a_pdf_accepted a_pdf_saved a_pdf_broken p
  show ?thesis by simp
qed

section \<open>Properties of binary64 rounding\<close>

lemma round_half_even_of_int: "round_half_even (of_int n) = n"
  by (simp add: round_half_even_def)

lemma round_half_even_mono:
  assumes "q \<le> r"
  shows "round_half_even q \<le> round_half_even r"
proof -
  have f: "\<lfloor>q\<rfloor> \<le> \<lfloor>r\<rfloor>" using assms by (rule floor_mono)
  have lo: "\<lfloor>r\<rfloor> \<le> round_half_even r" by (simp add: round_half_even_def Let_def)
  have hi: "round_half_even q \<le> \<lfloor>q\<rfloor> + 1" by (simp add: round_half_even_def Let_def)
  show ?thesis
  proof (cases "\<lfloor>q\<rfloor> < \<lfloor>r\<rfloor>")
    case True
    with lo hi show ?thesis by linarith
  next
    case False
    with f have e: "\<lfloor>q\<rfloor> = \<lfloor>r\<rfloor>" by simp
    with assms have "q - of_int \<lfloor>r\<rfloor> \<le> r - of_int \<lfloor>r\<rfloor>" by simp
    then show ?thesis unfolding round_half_even_def Let_def e by auto
  qed
qed

lemma powi_of_int: "0 \<le> k \<Longrightarrow> (2::rat) powi k = of_int (2 ^ nat k)"
  by (simp add: power_int_def)

lemma exponent_bounds:
  assumes "0 < x"
  shows "2 powi exponent x \<le> x \<and> x < 2 powi (exponent x + 1)"
proof -
  obtain a b where q: "quotient_of x = (a, b)" by (cases "quotient_of x")
  then have b: "0 < b" by (rule quotient_of_denom_pos)
  have x: "x = of_int a / of_int b" using q by (rule quotient_of_div)
  with assms b have a: "0 < a" by (simp add: zero_less_divide_iff)
  let ?la = "bitlen a" and ?lb = "bitlen b"
  from bitlen_bounds [OF a] have a1: "2 ^ nat (?la - 1) \<le> a" and a2: "a < 2 ^ nat ?la" by auto
  from bitlen_bounds [OF b] have b1: "2 ^ nat (?lb - 1) \<le> b" and b2: "b < 2 ^ nat ?lb" by auto
  have la: "1 \<le> ?la" using a by (simp add: bitlen_alt_def)
  have lb: "1 \<le> ?lb" using b by (simp add: bitlen_alt_def)
  have A1: "(2::rat) powi (?la - 1) \<le> of_int a"
  proof -
    have "(2::rat) powi (?la - 1) = of_int (2 ^ nat (?la - 1))" using la by (intro powi_of_int) simp
    also have "\<dots> \<le> of_int a" using a1 by (simp only: of_int_le_iff)
    finally show ?thesis .
  qed
  have A2: "of_int a < (2::rat) powi ?la"
  proof -
    have "(of_int a :: rat) < of_int (2 ^ nat ?la)" using a2 by (simp only: of_int_less_iff)
    also have "\<dots> = 2 powi ?la" using la by (intro powi_of_int [symmetric]) simp
    finally show ?thesis .
  qed
  have B1: "(2::rat) powi (?lb - 1) \<le> of_int b"
  proof -
    have "(2::rat) powi (?lb - 1) = of_int (2 ^ nat (?lb - 1))" using lb by (intro powi_of_int) simp
    also have "\<dots> \<le> of_int b" using b1 by (simp only: of_int_le_iff)
    finally show ?thesis .
  qed
  have B2: "of_int b < (2::rat) powi ?lb"
  proof -
    have "(of_int b :: rat) < of_int (2 ^ nat ?lb)" using b2 by (simp only: of_int_less_iff)
    also have "\<dots> = 2 powi ?lb" using lb by (intro powi_of_int [symmetric]) simp
    finally show ?thesis .
  qed
  let ?d = "?la - ?lb"
  have bpos: "(0::rat) < of_int b" using b by simp
  have up: "x < 2 powi (?d + 1)"
  proof -
    have "of_int a < (2::rat) powi ?la" by (rule A2)
    also have "\<dots> = 2 powi (?d + 1) * 2 powi (?lb - 1)"
      by (simp add: power_int_add [symmetric])
    also have "\<dots> \<le> 2 powi (?d + 1) * of_int b"
      using B1 by (simp add: mult_left_mono)
    finally show ?thesis unfolding x using bpos by (simp add: pos_divide_less_eq)
  qed
  have low: "2 powi (?d - 1) \<le> x"
  proof -
    have "(2::rat) powi (?d - 1) * of_int b \<le> 2 powi (?d - 1) * 2 powi ?lb"
      using B2 by (simp add: mult_left_mono)
    also have "\<dots> = 2 powi (?la - 1)" by (simp add: power_int_add [symmetric])
    also have "\<dots> \<le> of_int a" by (rule A1)
    finally show ?thesis unfolding x using bpos by (simp add: pos_le_divide_eq)
  qed
  have e: "exponent x = (if 2 powi ?d \<le> x then ?d else ?d - 1)"
    by (simp add: exponent_def q Let_def)
  show ?thesis
  proof (cases "2 powi ?d \<le> x")
    case True
    with e up show ?thesis by simp
  next
    case False
    with e low show ?thesis by simp
  qed
qed

lemma two_powi_mono: "a \<le> b \<Longrightarrow> (2::rat) powi a \<le> 2 powi b"
  by (rule power_int_increasing) simp_all

lemma exponent_unique:
  assumes "0 < x" "2 powi e \<le> x" "x < 2 powi (e + 1)"
  shows "exponent x = e"
proof (rule ccontr)
  assume n: "exponent x \<noteq> e"
  from exponent_bounds [OF assms(1)]
  have b: "2 powi exponent x \<le> x" "x < 2 powi (exponent x + 1)" by simp_all
  show False
  proof (cases "exponent x < e")
    case True
    then have "(2::rat) powi (exponent x + 1) \<le> 2 powi e" by (intro two_powi_mono) simp
    with b(2) assms(2) show False by simp
  next
    case False
    with n have "e + 1 \<le> exponent x" by simp
    then have "(2::rat) powi (e + 1) \<le> 2 powi exponent x" by (rule two_powi_mono)
    with b(1) assms(3) show False by simp
  qed
qed

lemma exponent_mono:
  assumes "0 < x" "x \<le> y"
  shows "exponent x \<le> exponent y"
proof (rule ccontr)
  assume "\<not> exponent x \<le> exponent y"
  then have "exponent y + 1 \<le> exponent x" by simp
  then have "(2::rat) powi (exponent y + 1) \<le> 2 powi exponent x" by (rule two_powi_mono)
  moreover from assms have "0 < y" by simp
  from exponent_bounds [OF this] have "y < 2 powi (exponent y + 1)" by simp
  moreover from exponent_bounds [OF assms(1)] have "2 powi exponent x \<le> x" by simp
  ultimately show False using assms(2) by simp
qed

lemma fl_pos:
  assumes "0 < x"
  shows "fl x = of_int (round_half_even (x / 2 powi (exponent x - 52))) * 2 powi (exponent x - 52)"
  using assms by (simp add: fl_def Let_def)

lemma fl_pos_bounds:
  assumes "0 < x"
  shows "2 powi exponent x \<le> fl x \<and> fl x \<le> 2 powi (exponent x + 1)"
proof -
  let ?e = "exponent x"
  let ?u = "(2::rat) powi (?e - 52)"
  have u: "0 < ?u" by simp
  from exponent_bounds [OF assms] have b: "2 powi ?e \<le> x" "x < 2 powi (?e + 1)" by simp_all
  have e1: "(2::rat) powi ?e = of_int (2 ^ 52) * ?u"
    using power_int_add [of "2::rat" 52 "?e - 52"] by simp
  have e2: "(2::rat) powi (?e + 1) = of_int (2 ^ 53) * ?u"
    using power_int_add [of "2::rat" 53 "?e - 52"] by (simp add: add.commute)
  have "of_int (2 ^ 52) \<le> x / ?u" using b(1) u unfolding e1 by (simp add: pos_le_divide_eq)
  from round_half_even_mono [OF this]
  have m1: "2 ^ 52 \<le> round_half_even (x / ?u)" by (simp only: round_half_even_of_int)
  have "x / ?u \<le> of_int (2 ^ 53)" using b(2) u unfolding e2 by (simp add: pos_divide_le_eq)
  from round_half_even_mono [OF this]
  have m2: "round_half_even (x / ?u) \<le> 2 ^ 53" by (simp only: round_half_even_of_int)
  have u0: "0 \<le> ?u" by simp
  have M1: "(of_int (2 ^ 52) :: rat) \<le> of_int (round_half_even (x / ?u))"
    using m1 by (simp only: of_int_le_iff)
  have M2: "(of_int (round_half_even (x / ?u)) :: rat) \<le> of_int (2 ^ 53)"
    using m2 by (simp only: of_int_le_iff)
  have "of_int (2 ^ 52) * ?u \<le> of_int (round_half_even (x / ?u)) * ?u"
    using M1 u0 by (rule mult_right_mono)
  moreover have "of_int (round_half_even (x / ?u)) * ?u \<le> of_int (2 ^ 53) * ?u"
    using M2 u0 by (rule mult_right_mono)
  ultimately show ?thesis unfolding fl_pos [OF assms] e1 e2 by blast
qed

lemma fl_pos_positive: "0 < x \<Longrightarrow> 0 < fl x"
  using fl_pos_bounds [of x] by (meson less_le_trans zero_less_numeral zero_less_power_int)

lemma fl_mono_pos:
  assumes "0 < x" "x \<le> y"
  shows "fl x \<le> fl y"
proof -
  from assms have y: "0 < y" by simp
  from exponent_mono [OF assms] have le: "exponent x \<le> exponent y" .
  show ?thesis
  proof (cases "exponent x = exponent y")
    case True
    let ?u = "(2::rat) powi (exponent y - 52)"
    have u: "0 < ?u" by simp
    have "x / ?u \<le> y / ?u" using assms(2) u by (simp add: divide_right_mono)
    from round_half_even_mono [OF this]
    have "(of_int (round_half_even (x / ?u)) :: rat) \<le> of_int (round_half_even (y / ?u))"
      by (simp only: of_int_le_iff)
    then have "of_int (round_half_even (x / ?u)) * ?u \<le> of_int (round_half_even (y / ?u)) * ?u"
      using u by (intro mult_right_mono) simp_all
    then show ?thesis unfolding fl_pos [OF assms(1)] fl_pos [OF y] True .
  next
    case False
    with le have "exponent x + 1 \<le> exponent y" by simp
    then have "(2::rat) powi (exponent x + 1) \<le> 2 powi exponent y" by (rule two_powi_mono)
    moreover from fl_pos_bounds [OF assms(1)] have "fl x \<le> 2 powi (exponent x + 1)" by simp
    moreover from fl_pos_bounds [OF y] have "2 powi exponent y \<le> fl y" by simp
    ultimately show ?thesis by linarith
  qed
qed

lemma fl_minus: "fl (- x) = - fl x"
  by (simp add: fl_def Let_def)

lemma fl_zero: "fl 0 = 0"
  by (simp add: fl_def)

lemma fl_mono:
  assumes "x \<le> y"
  shows "fl x \<le> fl y"
proof -
  consider "0 < x" | "x = 0" | "x < 0" by linarith
  then show ?thesis
  proof cases
    case 1
    then show ?thesis using assms by (rule fl_mono_pos)
  next
    case 2
    show ?thesis
    proof (cases "y = 0")
      case True
      with 2 show ?thesis by simp
    next
      case False
      with 2 assms have "0 < y" by simp
      from fl_pos_positive [OF this] 2 show ?thesis by (simp add: fl_zero)
    qed
  next
    case 3
    then have nx: "0 < - x" by simp
    from fl_pos_positive [OF nx] have fx: "fl x < 0" by (simp add: fl_minus)
    consider "0 < y" | "y = 0" | "y < 0" by linarith
    then show ?thesis
    proof cases
      case 1
      from fl_pos_positive [OF this] fx show ?thesis by simp
    next
      case 2
      with fx show ?thesis by (simp add: fl_zero)
    next
      case 3
      then have "0 < - y" by simp
      moreover from assms have "- y \<le> - x" by simp
      ultimately have "fl (- y) \<le> fl (- x)" by (rule fl_mono_pos)
      then show ?thesis by (simp add: fl_minus)
    qed
  qed
qed

lemma fl_of_nat:
  assumes "n < 2 ^ 53"
  shows "fl (of_nat n) = of_nat n"
proof (cases "n = 0")
  case True
  then show ?thesis by (simp add: fl_zero)
next
  case False
  let ?x = "of_nat n :: rat"
  let ?e = "exponent ?x"
  from False have x: "0 < ?x" by simp
  from exponent_bounds [OF x] have b: "2 powi ?e \<le> ?x" by simp
  have "?x < of_nat (2 ^ 53)" using assms by (simp only: of_nat_less_iff)
  then have "?x < 2 powi 53" by simp
  with b have "(2::rat) powi ?e < 2 powi 53" by simp
  have e: "?e < 53"
  proof (rule ccontr)
    assume "\<not> ?e < 53"
    then have "53 \<le> ?e" by simp
    then have "(2::rat) powi 53 \<le> 2 powi ?e" by (rule two_powi_mono)
    with \<open>(2::rat) powi ?e < 2 powi 53\<close> show False by simp
  qed
  then have k: "0 \<le> 52 - ?e" by simp
  define P :: rat where "P = 2 ^ nat (52 - ?e)"
  have P: "0 < P" by (simp add: P_def)
  have "(2::rat) powi (?e - 52) * 2 powi (52 - ?e) = 1"
    by (simp add: power_int_add [symmetric])
  moreover have "(2::rat) powi (52 - ?e) = P" using k by (simp add: P_def power_int_def)
  ultimately have inv: "(2::rat) powi (?e - 52) = 1 / P" using P by (simp add: field_simps)
  have "?x / (1 / P) = of_int (int n * 2 ^ nat (52 - ?e))" by (simp add: P_def)
  then have r: "round_half_even (?x / (1 / P)) = int n * 2 ^ nat (52 - ?e)"
    by (simp only: round_half_even_of_int)
  have "fl ?x = of_int (round_half_even (?x / (1 / P))) * (1 / P)"
    unfolding fl_pos [OF x] inv ..
  also have "\<dots> = of_int (int n * 2 ^ nat (52 - ?e)) * (1 / P)" by (simp only: r)
  also have "\<dots> = ?x" using P by (simp add: P_def)
  finally show ?thesis .
qed

section \<open>Properties of escaping and of the text of a page\<close>

lemma replace_all_append: "replace_all c r (a @ b) = replace_all c r a @ replace_all c r b"
  by (simp add: replace_all_def)

lemma escapeHtml_append: "escapeHtml (a @ b) = escapeHtml a @ escapeHtml b"
  by (simp add: escapeHtml_def replace_all_append)

lemma escapeHtml_Nil: "escapeHtml [] = []"
  by (simp add: escapeHtml_def replace_all_def)

lemma escapeHtml_single:
  "escapeHtml [c] =
     (if c = CHR ''&'' then ''&amp;'' else if c = CHR ''<'' then ''&lt;''
      else if c = CHR ''>'' then ''&gt;'' else if c = CHR 0x22 then ''&quot;''
      else if c = CHR 0x27 then ''&#039;'' else [c])"
  by (simp add: escapeHtml_def replace_all_def)

lemma escapeHtml_Cons: "escapeHtml (c # s) = escapeHtml [c] @ escapeHtml s"
  using escapeHtml_append [of "[c]" s] by simp

lemma html_text_escapeHtml: "html_text (escapeHtml s @ r) = s @ html_text r"
proof (induction s)
  case Nil
  then show ?case by (simp add: escapeHtml_Nil)
next
  case (Cons c s)
  show ?case
    unfolding escapeHtml_Cons [of c s] escapeHtml_single
    using Cons.IH by simp
qed

lemma html_text_tag:
  assumes "CHR ''>'' \<notin> set t"
  shows "html_text (CHR ''<'' # t @ CHR ''>'' # r) = html_text r"
proof -
  have "dropWhile (\<lambda>x. x \<noteq> CHR ''>'') (t @ CHR ''>'' # r) = CHR ''>'' # r"
    using assms by (subst dropWhile_append2) auto
  then show ?thesis by simp
qed

lemma html_text_open_tags:
  "html_text (''<span class=\"word\"><span class=\"bionic-strong\">'' @ r) = html_text r"
proof -
  have "html_text (CHR ''<'' # ''span class=\"word\"'' @ CHR ''>'' #
          (CHR ''<'' # ''span class=\"bionic-strong\"'' @ CHR ''>'' # r)) = html_text r"
    by (subst html_text_tag, simp, subst html_text_tag, simp, rule refl)
  then show ?thesis by (simp only: append_Cons append_Nil)
qed

lemma html_text_close_tag: "html_text (''</span>'' @ r) = html_text r"
proof -
  have "html_text (CHR ''<'' # ''/span'' @ CHR ''>'' # r) = html_text r"
    by (subst html_text_tag, simp, rule refl)
  then show ?thesis by (simp only: append_Cons append_Nil)
qed

lemma space_not_markup:
  assumes "is_space c"
  shows "c \<noteq> CHR ''<'' \<and> c \<noteq> CHR ''&''"
proof -
  have "\<not> is_space CHR ''<''" "\<not> is_space CHR ''&''"
    by (simp_all add: is_space_def code_def)
  with assms show ?thesis by blast
qed

lemma html_text_plain_char:
  "c \<noteq> CHR ''<'' \<Longrightarrow> c \<noteq> CHR ''&'' \<Longrightarrow> html_text (c # s) = c # html_text s"
  by simp

lemma html_text_spaces: "list_all is_space w \<Longrightarrow> html_text (w @ r) = w @ html_text r"
proof (induction w)
  case Nil
  then show ?case by simp
next
  case (Cons c w)
  then have "is_space c" and w: "html_text (w @ r) = w @ html_text r" by simp_all
  from space_not_markup [OF this(1)] have "html_text (c # (w @ r)) = c # html_text (w @ r)"
    by (intro html_text_plain_char) simp_all
  with w show ?case by (simp del: html_text.simps)
qed

lemma html_text_wrap_token: "html_text (wrap_token ratio token @ r) = token @ html_text r"
proof (cases "token \<noteq> [] \<and> list_all is_space token")
  case True
  then show ?thesis by (simp add: wrap_token_def html_text_spaces)
next
  case False
  let ?core = "takeWhile is_core_char token"
  let ?rest = "dropWhile is_core_char token"
  show ?thesis
  proof (cases "?core = [] \<or> list_ex is_line_terminator ?rest")
    case True
    have "wrap_token ratio token = escapeHtml token"
      using False True unfolding wrap_token_def Let_def by (simp only: if_False if_True)
    then show ?thesis by (simp only: html_text_escapeHtml)
  next
    case plain: False
    let ?k = "bold_length (length ?core) ratio"
    have w: "wrap_token ratio token =
        ''<span class=\"word\"><span class=\"bionic-strong\">'' @ escapeHtml (take ?k ?core)
        @ ''</span>'' @ escapeHtml (drop ?k ?core) @ escapeHtml ?rest @ ''</span>''"
      using False plain unfolding wrap_token_def Let_def by (simp only: if_False)
    have "html_text (wrap_token ratio token @ r) =
        html_text (''<span class=\"word\"><span class=\"bionic-strong\">''
          @ (escapeHtml (take ?k ?core) @ (''</span>'' @ (escapeHtml (drop ?k ?core)
          @ (escapeHtml ?rest @ (''</span>'' @ r))))))"
      unfolding w by (simp only: append_assoc)
    also have "\<dots> = take ?k ?core @ drop ?k ?core @ ?rest @ html_text r"
      by (simp only: html_text_open_tags html_text_close_tag html_text_escapeHtml)
    also have "\<dots> = token @ html_text r"
      by (metis append_assoc append_take_drop_id takeWhile_dropWhile_id)
    finally show ?thesis .
  qed
qed

lemma html_text_wrapped_tokens:
  "html_text (concat (map (wrap_token ratio) tokens) @ r) = concat tokens @ html_text r"
  by (induction tokens) (simp_all add: html_text_wrap_token)

lemma concat_split_space: "concat (split_space s) = s"
proof (induction s rule: split_space.induct)
  case (1 s)
  show ?case
  proof (cases "dropWhile (\<lambda>c. \<not> is_space c) s = []")
    case True
    then show ?thesis by (subst split_space.simps) (simp del: split_space.simps)
  next
    case False
    from "1" [OF False] False show ?thesis
      by (subst split_space.simps) (simp del: split_space.simps)
  qed
qed

lemma html_text_bionicWrapText: "html_text (bionicWrapText text ratioPercent) = text"
  using html_text_wrapped_tokens [of "effective_ratio ratioPercent" "split_space text" "[]"]
  by (simp add: bionicWrapText_def concat_split_space)

lemma wrap_token_spaces: "token \<noteq> [] \<Longrightarrow> list_all is_space token \<Longrightarrow> wrap_token ratio token = token"
  by (simp add: wrap_token_def)

section \<open>Properties of the bionic formatter\<close>

lemma split_space_odd_length: "odd (length (split_space s))"
proof (induction s rule: split_space.induct)
  case (1 s)
  let ?r = "dropWhile (\<lambda>c. \<not> is_space c) s"
  show ?case
  proof (cases "?r = []")
    case True
    then have "split_space s = [s]"
      by (subst split_space.simps) (simp only: simp_thms if_True)
    then show ?thesis by simp
  next
    case False
    then have "split_space s =
        takeWhile (\<lambda>c. \<not> is_space c) s # takeWhile is_space ?r
        # split_space (dropWhile is_space ?r)"
      by (subst split_space.simps) (simp only: if_False)
    with "1" [OF False] show ?thesis by simp
  qed
qed

lemma split_space_alternates:
  "i < length (split_space s) \<Longrightarrow>
     (even i \<longrightarrow> list_all (\<lambda>c. \<not> is_space c) (split_space s ! i))
     \<and> (odd i \<longrightarrow> split_space s ! i \<noteq> [] \<and> list_all is_space (split_space s ! i))"
proof (induction s arbitrary: i rule: split_space.induct)
  case (1 s)
  let ?r = "dropWhile (\<lambda>c. \<not> is_space c) s"
  show ?case
  proof (cases "?r = []")
    case True
    then have a: "list_all (\<lambda>c. \<not> is_space c) s"
      by (simp add: dropWhile_eq_Nil_conv list_all_iff)
    from True have e: "split_space s = [s]"
      by (subst split_space.simps) (simp only: simp_thms if_True)
    from a "1.prems" show ?thesis unfolding e by simp
  next
    case False
    have a: "list_all (\<lambda>c. \<not> is_space c) (takeWhile (\<lambda>c. \<not> is_space c) s)"
      by (auto simp add: list_all_iff dest: set_takeWhileD)
    have b: "list_all is_space (takeWhile is_space ?r)"
      by (auto simp add: list_all_iff dest: set_takeWhileD)
    from False have "is_space (hd ?r)" using hd_dropWhile [of "\<lambda>c. \<not> is_space c" s] by simp
    with False have b': "takeWhile is_space ?r \<noteq> []" by (cases ?r) simp_all
    from False have e: "split_space s =
        takeWhile (\<lambda>c. \<not> is_space c) s # takeWhile is_space ?r
        # split_space (dropWhile is_space ?r)"
      by (subst split_space.simps) (simp only: if_False)
    consider "i = 0" | "i = 1" | j where "i = Suc (Suc j)"
      by (metis One_nat_def not0_implies_Suc)
    then show ?thesis
    proof cases
      case 1
      with a show ?thesis unfolding e by simp
    next
      case 2
      with b b' show ?thesis unfolding e by simp
    next
      case 3
      with "1.prems" have "j < length (split_space (dropWhile is_space ?r))"
        unfolding e by simp
      from "1.IH" [OF False this] 3 show ?thesis unfolding e by simp
    qed
  qed
qed

text \<open>
  C2: the tokens that the formatter splits a text into are the text when put together
  again. They alternate: the tokens at even positions, the first and the last among them,
  have no white space, and those at odd positions are runs of white space, not empty,
  which the formatter passes on as they are. The output of the formatter without its
  markup is the text.
\<close>

theorem bionic_wrap_is_lossless:
  "concat (split_space text) = text
   \<and> (\<forall>i < length (split_space text).
         (even i \<longrightarrow> list_all (\<lambda>c. \<not> is_space c) (split_space text ! i))
         \<and> (odd i \<longrightarrow>
               split_space text ! i \<noteq> [] \<and> list_all is_space (split_space text ! i)
               \<and> wrap_token (effective_ratio ratioPercent) (split_space text ! i)
                   = split_space text ! i))
   \<and> odd (length (split_space text))
   \<and> html_text (bionicWrapText text ratioPercent) = text"
  using split_space_alternates [of _ "text"] split_space_odd_length [of "text"]
  by (simp add: concat_split_space html_text_bionicWrapText wrap_token_spaces)

theorem bionic_wrap_is_lossless_witness:
  "split_space ''a  <b'' = [''a'', ''  '', ''<b'']
   \<and> wrap_token (effective_ratio 35) ''  '' = ''  ''
   \<and> bionicWrapText ''a  <b'' 35
       = ''<span class=\"word\"><span class=\"bionic-strong\">a</span></span>  &lt;b''
   \<and> html_text (bionicWrapText ''a  <b'' 35) = ''a  <b''"
proof -
  have s: "split_space ''a  <b'' = [''a'', ''  '', ''<b'']" by code_simp
  have b: "bionicWrapText ''a  <b'' 35
       = ''<span class=\"word\"><span class=\"bionic-strong\">a</span></span>  &lt;b''"
    by code_simp
  note t = bionic_wrap_is_lossless [of "''a  <b''" 35]
  from t have "\<forall>i < length (split_space ''a  <b'').
      odd i \<longrightarrow> wrap_token (effective_ratio 35) (split_space ''a  <b'' ! i)
                  = split_space ''a  <b'' ! i"
    by blast
  then have q: "\<forall>i < 3. odd i \<longrightarrow> wrap_token (effective_ratio 35) ([''a'', ''  '', ''<b''] ! i)
                  = [''a'', ''  '', ''<b''] ! i"
    unfolding s by simp
  from q [rule_format, of 1] have "wrap_token (effective_ratio 35) ''  '' = ''  ''" by simp
  with s b t show ?thesis by blast
qed

lemma fl_one: "fl 1 = 1"
  using fl_of_nat [of 1] by simp

lemma fl_nine_tenths_le_one: "fl (9 / 10) \<le> 1"
  using fl_mono [of "9 / 10" 1] by (simp add: fl_one)

lemma fl_five_percent_pos: "0 < fl (5 / 100)"
  by (rule fl_pos_positive) simp

lemma effective_ratio_eq: "effective_ratio p = fl (of_int (min (max p 5) 90) / 100)"
proof -
  have lo_hi: "fl (5 / 100) \<le> fl (9 / 10)" by (rule fl_mono) simp
  consider "p < 5" | "5 \<le> p" "p \<le> 90" | "90 < p" by linarith
  then show ?thesis
  proof cases
    case 1
    then have "(of_int p :: rat) \<le> 5" by simp
    then have "fl (of_int p / 100) \<le> fl (5 / 100)" by (intro fl_mono) simp
    with lo_hi 1 show ?thesis by (simp add: effective_ratio_def max_def min_def)
  next
    case 2
    then have "(5 :: rat) \<le> of_int p" "(of_int p :: rat) \<le> 90" by simp_all
    then have "fl (5 / 100) \<le> fl (of_int p / 100)" "fl (of_int p / 100) \<le> fl (9 / 10)"
      by (auto intro!: fl_mono)
    with 2 show ?thesis by (simp add: effective_ratio_def max_def min_def)
  next
    case 3
    then have "(90 :: rat) \<le> of_int p" by simp
    then have "fl (9 / 10) \<le> fl (of_int p / 100)" by (intro fl_mono) simp
    with lo_hi 3 show ?thesis by (simp add: effective_ratio_def max_def min_def)
  qed
qed

text \<open>
  C4: the ratio that \<^verbatim>\<open>bionicWrapText\<close> works with, which the script gets by dividing the
  intensity by 100 and clamping the quotient between 0.05 and 0.9, is the quotient by 100
  of the intensity clamped between 5 and 90; below 5 it is 0.05 and above 90 it is 0.9,
  whatever the intensity. The quotients are those of the script's numbers: \<^term>\<open>fl (5 / 100)\<close>
  is the number that \<^verbatim>\<open>0.05\<close> and \<^verbatim>\<open>5/100\<close> denote.
\<close>

theorem effective_ratio_is_clamped_intensity:
  "effective_ratio p = fl (of_int (min (max p 5) 90) / 100)
   \<and> (p < 5 \<longrightarrow> effective_ratio p = fl (5 / 100))
   \<and> (90 < p \<longrightarrow> effective_ratio p = fl (9 / 10))"
  by (simp add: effective_ratio_eq)

lemma binary64_ratios:
  "fl (5 / 100) = 3602879701896397 / 72057594037927936
   \<and> fl (9 / 10) = 8106479329266893 / 9007199254740992
   \<and> fl (35 / 100) = 3152519739159347 / 9007199254740992"
  by code_simp

theorem effective_ratio_is_clamped_intensity_witness:
  "effective_ratio 3 = 3602879701896397 / 72057594037927936
   \<and> effective_ratio 250 = 8106479329266893 / 9007199254740992
   \<and> effective_ratio 35 = 3152519739159347 / 9007199254740992
   \<and> effective_ratio 3 \<noteq> fl (3 / 100) \<and> effective_ratio 250 \<noteq> fl (250 / 100)"
proof -
  have a: "effective_ratio 3 = fl (5 / 100)"
    using effective_ratio_is_clamped_intensity [of 3] by simp
  have b: "effective_ratio 250 = fl (9 / 10)"
    using effective_ratio_is_clamped_intensity [of 250] by simp
  have c: "effective_ratio 35 = fl (35 / 100)"
    using effective_ratio_is_clamped_intensity [of 35] by simp
  have d: "fl (5 / 100) \<noteq> fl (3 / 100)" "fl (9 / 10) \<noteq> fl (250 / 100)"
    by code_simp+
  from a b c d show ?thesis by (simp only: binary64_ratios simp_thms)
qed

lemma effective_ratio_bounds: "fl (5 / 100) \<le> effective_ratio p \<and> effective_ratio p \<le> fl (9 / 10)"
proof -
  have "fl (5 / 100) \<le> fl (9 / 10)" by (rule fl_mono) simp
  then show ?thesis by (simp add: effective_ratio_def)
qed

lemma bold_length_le:
  assumes "0 \<le> ratio" "ratio \<le> 1" "1 \<le> n" "n < 2 ^ 53"
  shows "1 \<le> bold_length n ratio \<and> bold_length n ratio \<le> n"
proof -
  have "of_nat n * ratio \<le> of_nat n * 1" using assms(2) by (intro mult_left_mono) simp_all
  then have "fl (of_nat n * ratio) \<le> fl (of_nat n)" by (intro fl_mono) simp
  also have "\<dots> = of_nat n" using assms(4) by (rule fl_of_nat)
  finally have "\<lceil>fl (of_nat n * ratio)\<rceil> \<le> int n" by (simp add: ceiling_le_iff)
  with assms(3) show ?thesis unfolding bold_length_def by linarith
qed

lemma line_terminator_is_space: "is_line_terminator c \<Longrightarrow> is_space c"
  by (auto simp add: is_line_terminator_def is_space_def)

lemma reading_ratio: "fl (5 / 100) \<le> effective_ratio 35 \<and> effective_ratio 35 \<le> fl (9 / 10)"
  by (rule effective_ratio_bounds)

lemma reading_no_space: "\<not> list_ex is_space ''Reading''"
  by code_simp

lemma reading_core: "takeWhile is_core_char ''Reading'' = ''Reading''"
  by code_simp

lemma reading_rest: "dropWhile is_core_char ''Reading'' = []"
  by code_simp

lemma reading_bold_length: "bold_length (length ''Reading'') (effective_ratio 35) = 3"
  by code_simp

lemma reading_markup:
  "''<span class=\"word\"><span class=\"bionic-strong\">'' @ escapeHtml (take 3 ''Reading'')
     @ ''</span>'' @ escapeHtml (drop 3 ''Reading'') @ escapeHtml [] @ ''</span>''
   = ''<span class=\"word\"><span class=\"bionic-strong\">Rea</span>ding</span>''"
  by code_simp

lemma bang_core: "takeWhile is_core_char ''?!'' = []"
  by code_simp

lemma bang_no_space: "\<not> list_ex is_space ''?!''"
  by code_simp

text \<open>
  C3: for a token without white space and a ratio between 0.05 and 0.9, let \<^verbatim>\<open>n\<close> be the
  length of the leading run of letters, digits and apostrophes. When \<^verbatim>\<open>n\<close> is at least 1,
  the formatter takes \<^verbatim>\<open>k = max(1, ceil(n * ratio))\<close> with the product rounded to a binary64
  number, \<^verbatim>\<open>k\<close> is between 1 and \<^verbatim>\<open>n\<close>, and the output is the run's first \<^verbatim>\<open>k\<close> characters
  in the inner element, its other \<^verbatim>\<open>n - k\<close> characters and the rest of the token behind it,
  each piece escaped. When \<^verbatim>\<open>n\<close> is 0, the output is the escaped token. (A string is
  shorter than \<^verbatim>\<open>2^53\<close>, so that its length is a number of the script.)
\<close>

theorem bold_prefix_of_token:
  fixes token :: string and ratio :: rat
  defines "core \<equiv> takeWhile is_core_char token"
    and "rest \<equiv> dropWhile is_core_char token"
  defines "n \<equiv> length core"
  defines "k \<equiv> bold_length n ratio"
  assumes ratio: "fl (5 / 100) \<le> ratio" "ratio \<le> fl (9 / 10)"
    and token: "token \<noteq> []" "\<not> list_ex is_space token" "length token < 2 ^ 53"
  shows "(1 \<le> n \<longrightarrow>
            k = nat (max 1 \<lceil>fl (of_nat n * ratio)\<rceil>) \<and> 1 \<le> k \<and> k \<le> n
            \<and> length (take k core) = k \<and> length (drop k core) = n - k
            \<and> wrap_token ratio token =
                ''<span class=\"word\"><span class=\"bionic-strong\">'' @ escapeHtml (take k core)
                @ ''</span>'' @ escapeHtml (drop k core) @ escapeHtml rest @ ''</span>'')
         \<and> (n = 0 \<longrightarrow> wrap_token ratio token = escapeHtml token)"
proof -
  have not_space: "\<not> (token \<noteq> [] \<and> list_all is_space token)"
    using token(1,2) by (cases token) (auto simp add: list_ex_iff list_all_iff)
  have no_lt: "\<not> list_ex is_line_terminator rest"
  proof
    assume "list_ex is_line_terminator rest"
    then obtain c where "c \<in> set rest" "is_line_terminator c" by (auto simp add: list_ex_iff)
    then have "c \<in> set token" "is_space c"
      by (auto simp add: rest_def line_terminator_is_space dest: set_dropWhileD)
    with token(2) show False by (auto simp add: list_ex_iff)
  qed
  have empty: "wrap_token ratio token = escapeHtml token" if "n = 0"
  proof -
    from that have "core = []" by (simp add: n_def)
    with not_space show ?thesis
      unfolding wrap_token_def Let_def core_def by (simp only: if_False if_True simp_thms)
  qed
  have split: "wrap_token ratio token =
                ''<span class=\"word\"><span class=\"bionic-strong\">'' @ escapeHtml (take k core)
                @ ''</span>'' @ escapeHtml (drop k core) @ escapeHtml rest @ ''</span>''"
    if "1 \<le> n"
  proof -
    from that have "core \<noteq> []" by (auto simp add: n_def)
    with not_space no_lt show ?thesis
      unfolding wrap_token_def Let_def core_def rest_def k_def n_def
      by (simp only: if_False simp_thms)
  qed
  have bounds: "1 \<le> k \<and> k \<le> n" if "1 \<le> n"
  proof -
    have "0 \<le> ratio" using ratio(1) fl_five_percent_pos by linarith
    moreover have "ratio \<le> 1" using ratio(2) fl_nine_tenths_le_one by linarith
    moreover have "n \<le> length token" unfolding n_def core_def by (rule length_takeWhile_le)
    then have "n < 2 ^ 53" using token(3) by linarith
    ultimately show ?thesis unfolding k_def using that by (intro bold_length_le)
  qed
  have "k = nat (max 1 \<lceil>fl (of_nat n * ratio)\<rceil>)" by (simp add: k_def bold_length_def)
  moreover have "length (take k core) = k \<and> length (drop k core) = n - k" if "1 \<le> n"
    using bounds [OF that] by (simp add: n_def)
  ultimately show ?thesis using empty split bounds by blast
qed

theorem bold_prefix_of_token_witness:
  "fl (5 / 100) \<le> effective_ratio 35 \<and> effective_ratio 35 \<le> fl (9 / 10)
   \<and> \<not> list_ex is_space ''Reading''
   \<and> bold_length (length ''Reading'') (effective_ratio 35) = 3
   \<and> wrap_token (effective_ratio 35) ''Reading''
       = ''<span class=\"word\"><span class=\"bionic-strong\">Rea</span>ding</span>''
   \<and> \<not> list_ex is_space ''?!''
   \<and> wrap_token (effective_ratio 35) ''?!'' = escapeHtml ''?!''"
proof -
  have l: "length ''Reading'' < 2 ^ 53" by simp
  have n: "''Reading'' \<noteq> []" by simp
  have p: "1 \<le> length ''Reading''" by simp
  note t = bold_prefix_of_token [of "effective_ratio 35" "''Reading''",
         OF conjunct1 [OF reading_ratio] conjunct2 [OF reading_ratio] n reading_no_space l,
         unfolded reading_core reading_rest reading_bold_length]
  from t p have "wrap_token (effective_ratio 35) ''Reading''
       = ''<span class=\"word\"><span class=\"bionic-strong\">'' @ escapeHtml (take 3 ''Reading'')
         @ ''</span>'' @ escapeHtml (drop 3 ''Reading'') @ escapeHtml [] @ ''</span>''"
    by blast
  then have r: "wrap_token (effective_ratio 35) ''Reading''
       = ''<span class=\"word\"><span class=\"bionic-strong\">Rea</span>ding</span>''"
    by (simp only: reading_markup)
  have l2: "length ''?!'' < 2 ^ 53" by simp
  have n2: "''?!'' \<noteq> []" by simp
  note u = bold_prefix_of_token [of "effective_ratio 35" "''?!''",
         OF conjunct1 [OF reading_ratio] conjunct2 [OF reading_ratio] n2 bang_no_space l2,
         unfolded bang_core]
  then have b: "wrap_token (effective_ratio 35) ''?!'' = escapeHtml ''?!''" by simp
  from r b reading_ratio reading_no_space reading_bold_length bang_no_space show ?thesis
    by (simp only: simp_thms)
qed

text \<open>
  Without the rounding the equation of C3 for \<^verbatim>\<open>k\<close> fails, whichever way the ratio is read. At
  28 percent a run of 25 characters gets 8 bold characters, where \<^verbatim>\<open>max(1, ceil(25 * 0.28))\<close>
  is 7: the number nearest to 0.28 is above 0.28, and so is its product with 25 above 7.
  At 10 percent a run of 10 characters gets 1 bold character, where the exact product of
  10 and the number nearest to 0.1 is above 1: the script rounds it to 1.
\<close>

theorem bold_length_differs_from_exact_ceiling:
  "bold_length 25 (effective_ratio 28) = 8 \<and> spec_bold_length 25 (28 / 100) = 7
   \<and> bold_length 25 (effective_ratio 28) \<noteq> spec_bold_length 25 (28 / 100)
   \<and> wrap_token (effective_ratio 28) ''abcdefghijklmnopqrstuvwxy''
       = ''<span class=\"word\"><span class=\"bionic-strong\">abcdefgh</span>ijklmnopqrstuvwxy</span>''
   \<and> bold_length 10 (effective_ratio 10) = 1 \<and> spec_bold_length 10 (effective_ratio 10) = 2
   \<and> bold_length 10 (effective_ratio 10) \<noteq> spec_bold_length 10 (effective_ratio 10)"
  by code_simp

text \<open>
  C1: \<^verbatim>\<open>renderText\<close> escapes the raw text and hands the result to \<^verbatim>\<open>bionicWrapText\<close>, which
  escapes each token again. So for every raw text, what the page shows for the HTML is the
  escaped text, not the raw text: for \<^verbatim>\<open>AT&T\<close> the HTML has \<^verbatim>\<open>&amp;amp;\<close> and the page shows
  \<^verbatim>\<open>AT&amp;T\<close>.
\<close>

theorem renderText_escapes_twice:
  "html_text (renderText raw intensity) = escapeHtml raw
   \<and> renderText ''AT&T'' 35
       = ''<span class=\"word\"><span class=\"bionic-strong\">A</span>T&amp;amp;T</span>''
   \<and> html_text (renderText ''AT&T'' 35) = ''AT&amp;T''
   \<and> html_text (renderText ''AT&T'' 35) \<noteq> ''AT&T''"
proof -
  have g: "html_text (renderText raw intensity) = escapeHtml raw" for raw intensity
    by (simp add: renderText_def html_text_bionicWrapText)
  have h1: "renderText ''AT&T'' 35
     = ''<span class=\"word\"><span class=\"bionic-strong\">A</span>T&amp;amp;T</span>''"
    by code_simp
  have h3: "escapeHtml ''AT&T'' = ''AT&amp;T''" by code_simp
  have h5: "html_text (renderText ''AT&T'' 35) = ''AT&amp;T''"
    by (rule trans [OF g h3])
  have h6: "html_text (renderText ''AT&T'' 35) \<noteq> ''AT&T''"
    unfolding h5 by simp
  from g h1 h5 h6 show ?thesis by blast
qed

section \<open>Properties of the styles\<close>

lemma round_half_even_error: "\<bar>of_int (round_half_even q) - q\<bar> \<le> 1 / 2"
proof -
  define f where "f = \<lfloor>q\<rfloor>"
  have b: "of_int f \<le> q" "q < of_int f + 1" unfolding f_def by linarith+
  consider "q - of_int f < 1 / 2" | "1 / 2 < q - of_int f" | "q - of_int f = 1 / 2"
    by linarith
  then show ?thesis
  proof cases
    case 1
    then have "round_half_even q = f" by (simp add: round_half_even_def Let_def f_def)
    with 1 b show ?thesis by simp
  next
    case 2
    then have "round_half_even q = f + 1" by (simp add: round_half_even_def Let_def f_def)
    with 2 b show ?thesis by simp
  next
    case 3
    then have "round_half_even q = f \<or> round_half_even q = f + 1"
      by (simp add: round_half_even_def Let_def f_def)
    with 3 show ?thesis by auto
  qed
qed

lemma fl_error:
  assumes "0 < x"
  shows "\<bar>fl x - x\<bar> \<le> x / 2 ^ 53"
proof -
  let ?e = "exponent x"
  let ?u = "(2::rat) powi (?e - 52)"
  let ?r = "of_int (round_half_even (x / ?u)) :: rat"
  have u: "0 < ?u" by simp
  have "fl x - x = (?r - x / ?u) * ?u" using u by (simp add: fl_pos [OF assms] field_simps)
  then have "\<bar>fl x - x\<bar> = \<bar>?r - x / ?u\<bar> * ?u" using u by (simp add: abs_mult)
  also have "\<dots> \<le> (1 / 2) * ?u"
    using round_half_even_error [of "x / ?u"] u by (intro mult_right_mono) simp_all
  also have "\<dots> = 2 powi ?e / 2 ^ 53"
  proof -
    have "(2::rat) powi ?e = 2 powi 52 * ?u"
      using power_int_add [of "2::rat" 52 "?e - 52"] by simp
    then show ?thesis by simp
  qed
  also have "\<dots> \<le> x / 2 ^ 53"
    using exponent_bounds [OF assms] by (simp add: divide_right_mono)
  finally show ?thesis .
qed

lemma hundredths_of_quotient:
  assumes "0 < b" "200 * a < 2 ^ 53"
  shows "\<bar>of_int (hundredths (fl (of_nat a / of_nat b))) / 100 - of_nat a / of_nat b\<bar>
           \<le> (1 / 200 :: rat)
         \<and> 0 \<le> hundredths (fl (of_nat a / of_nat b))"
proof (cases "a = 0")
  case True
  have "hundredths 0 = 0" by code_simp
  with True show ?thesis by (simp add: fl_zero)
next
  case False
  define x :: rat where "x = of_nat a / of_nat b"
  define y where "y = fl x"
  define n where "n = hundredths y"
  define K :: rat where "K = 200 * of_nat b * y"
  from False assms(1) have x: "0 < x" by (simp add: x_def)
  have bpos: "(0::rat) < of_nat b" using assms(1) by simp
  have y0: "0 < y" unfolding y_def using x by (rule fl_pos_positive)
  have A: "(of_nat (200 * a) :: rat) < 2 ^ 53"
  proof -
    have "(of_nat (200 * a) :: rat) < of_nat (2 ^ 53)" using assms(2) by (simp only: of_nat_less_iff)
    then show ?thesis by simp
  qed
  have "\<bar>y - x\<bar> \<le> x / 2 ^ 53" unfolding y_def using x by (rule fl_error)
  then have "\<bar>y - x\<bar> * (200 * of_nat b) \<le> x / 2 ^ 53 * (200 * of_nat b)"
    using bpos by (intro mult_right_mono) simp_all
  moreover have "\<bar>y - x\<bar> * (200 * of_nat b) = \<bar>K - of_nat (200 * a)\<bar>"
  proof -
    have "K - of_nat (200 * a) = (y - x) * (200 * of_nat b)"
      using bpos by (simp add: K_def x_def field_simps)
    then show ?thesis using bpos by (simp add: abs_mult)
  qed
  moreover have "x / 2 ^ 53 * (200 * of_nat b) = of_nat (200 * a) / 2 ^ 53"
    using bpos by (simp add: x_def field_simps)
  moreover have "(of_nat (200 * a) :: rat) / 2 ^ 53 < 1" using A by simp
  ultimately have star: "\<bar>K - of_nat (200 * a)\<bar> < 1" by linarith
  have nb: "of_int n \<le> y * 100 + 1 / 2" "y * 100 + 1 / 2 < of_int n + 1"
    unfolding n_def hundredths_def by linarith+
  from nb(1) have "(2 * of_int n - 1) * of_nat b \<le> 200 * y * of_nat b"
    using bpos by (intro mult_right_mono) simp_all
  then have L: "of_int ((2 * n - 1) * int b) \<le> K" by (simp add: K_def mult.commute mult.left_commute)
  from nb(2) have "200 * y * of_nat b < (2 * of_int n + 1) * of_nat b"
    using bpos by (intro mult_strict_right_mono) simp_all
  then have U: "K < of_int ((2 * n + 1) * int b)" by (simp add: K_def mult.commute mult.left_commute)
  have "(of_int ((2 * n - 1) * int b - 1) :: rat) < of_int (int (200 * a))"
    using L star by simp
  then have "(2 * n - 1) * int b - 1 < int (200 * a)" by (simp only: of_int_less_iff)
  then have l: "(2 * n - 1) * int b \<le> int (200 * a)" by linarith
  have "(of_int (int (200 * a)) :: rat) < of_int ((2 * n + 1) * int b + 1)"
    using U star by simp
  then have "int (200 * a) < (2 * n + 1) * int b + 1" by (simp only: of_int_less_iff)
  then have u: "int (200 * a) \<le> (2 * n + 1) * int b" by linarith
  from l have "(of_int ((2 * n - 1) * int b) :: rat) \<le> of_int (int (200 * a))"
    by (simp only: of_int_le_iff)
  then have l': "(2 * of_int n - 1) * of_nat b \<le> (200 * of_nat a :: rat)" by simp
  from u have "(of_int (int (200 * a)) :: rat) \<le> of_int ((2 * n + 1) * int b)"
    by (simp only: of_int_le_iff)
  then have u': "(200 * of_nat a :: rat) \<le> (2 * of_int n + 1) * of_nat b" by simp
  from l' have "2 * of_int n - 1 \<le> 200 * x" using bpos by (simp add: x_def field_simps)
  moreover from u' have "200 * x \<le> 2 * of_int n + 1" using bpos by (simp add: x_def field_simps)
  ultimately have "\<bar>of_int n / 100 - x\<bar> \<le> 1 / 200" by linarith
  moreover have "0 \<le> n"
  proof -
    have "0 \<le> y * 100 + 1 / 2" using y0 by simp
    then show ?thesis unfolding n_def hundredths_def by simp
  qed
  ultimately show ?thesis by (simp add: n_def y_def x_def)
qed

lemma applyStyles_style:
  "textContainer_style (applyStyles c p) =
     (textContainer_style p)
       \<lparr>fontSize := show_nat (fontSize_value c) @ ''px'',
        lineHeight := toFixed2 (quotient (lineHeight_value c) (fontSize_value c)),
        color := (if softToggle_checked c then ''var(--soft-color)'' else ''var(--text)''),
        opacity := (if softToggle_checked c then ''0.95'' else ''1''),
        letterSpacing := (if softToggle_checked c then ''0.2px'' else ''0'')\<rparr>"
  by (simp add: applyStyles_def Let_def)

text \<open>
  C7: for a font size that is not 0 (and a line height below \<^verbatim>\<open>2^53 / 200\<close>),
  \<^verbatim>\<open>applyStyles\<close> sets the font size of the text container to the slider's value in \<^verbatim>\<open>px\<close>
  and its line height to the numeral with two decimals of a number \<^verbatim>\<open>n / 100\<close> that is
  within half a hundredth of the line height divided by the font size. With soft text it
  sets the colour \<^verbatim>\<open>var(--soft-color)\<close>, the opacity \<^verbatim>\<open>0.95\<close> and the letter spacing \<^verbatim>\<open>0.2px\<close>;
  without, the colour \<^verbatim>\<open>var(--text)\<close>, the opacity \<^verbatim>\<open>1\<close> and the letter spacing \<^verbatim>\<open>0\<close>.
\<close>

theorem applyStyles_sets_size_line_height_and_soft_text:
  fixes c :: controls and p :: page
  defines "s \<equiv> textContainer_style (applyStyles c p)"
    and "n \<equiv> hundredths (fl (of_nat (lineHeight_value c) / of_nat (fontSize_value c)))"
  assumes "0 < fontSize_value c" and "200 * lineHeight_value c < 2 ^ 53"
  shows "fontSize s = show_nat (fontSize_value c) @ ''px''
         \<and> lineHeight s = show_nat (nat n div 100) @ ''.''
                            @ [digit (nat n div 10 mod 10), digit (nat n mod 10)]
         \<and> 0 \<le> n
         \<and> \<bar>of_int n / 100 - of_nat (lineHeight_value c) / of_nat (fontSize_value c)\<bar>
             \<le> (1 / 200 :: rat)
         \<and> (softToggle_checked c \<longrightarrow>
               color s = ''var(--soft-color)'' \<and> opacity s = ''0.95''
               \<and> letterSpacing s = ''0.2px'')
         \<and> (\<not> softToggle_checked c \<longrightarrow>
               color s = ''var(--text)'' \<and> opacity s = ''1'' \<and> letterSpacing s = ''0'')"
proof -
  from assms(3) have q: "quotient (lineHeight_value c) (fontSize_value c)
      = Num (fl (of_nat (lineHeight_value c) / of_nat (fontSize_value c)))"
    by (simp add: quotient_def)
  have "lineHeight s = show_nat (nat n div 100) @ ''.''
                            @ [digit (nat n div 10 mod 10), digit (nat n mod 10)]"
    unfolding s_def n_def applyStyles_style q by (simp add: Let_def)
  moreover have "fontSize s = show_nat (fontSize_value c) @ ''px''"
    unfolding s_def applyStyles_style by simp
  moreover have "color s = (if softToggle_checked c then ''var(--soft-color)'' else ''var(--text)'')"
    "opacity s = (if softToggle_checked c then ''0.95'' else ''1'')"
    "letterSpacing s = (if softToggle_checked c then ''0.2px'' else ''0'')"
    unfolding s_def applyStyles_style by simp_all
  moreover note hundredths_of_quotient [OF assms(3,4), folded n_def]
  ultimately show ?thesis by simp
qed

lemma soft_16_24_style:
  "textContainer_style (applyStyles soft_16_24 blank_page)
     = \<lparr>fontSize = ''16px'', lineHeight = ''1.50'', color = ''var(--soft-color)'',
        opacity = ''0.95'', letterSpacing = ''0.2px''\<rparr>"
  by code_simp

lemma plain_20_25_style:
  "textContainer_style (applyStyles plain_20_25 blank_page)
     = \<lparr>fontSize = ''20px'', lineHeight = ''1.25'', color = ''var(--text)'',
        opacity = ''1'', letterSpacing = ''0''\<rparr>"
  by code_simp

theorem applyStyles_sets_size_line_height_and_soft_text_witness:
  "0 < fontSize_value soft_16_24 \<and> 200 * lineHeight_value soft_16_24 < 2 ^ 53
   \<and> softToggle_checked soft_16_24
   \<and> fontSize (textContainer_style (applyStyles soft_16_24 blank_page)) = ''16px''
   \<and> lineHeight (textContainer_style (applyStyles soft_16_24 blank_page)) = ''1.50''
   \<and> \<bar>150 / 100 - 24 / 16\<bar> \<le> (1 / 200 :: rat)
   \<and> color (textContainer_style (applyStyles soft_16_24 blank_page)) = ''var(--soft-color)''
   \<and> opacity (textContainer_style (applyStyles soft_16_24 blank_page)) = ''0.95''
   \<and> letterSpacing (textContainer_style (applyStyles soft_16_24 blank_page)) = ''0.2px''
   \<and> 0 < fontSize_value plain_20_25 \<and> 200 * lineHeight_value plain_20_25 < 2 ^ 53
   \<and> \<not> softToggle_checked plain_20_25
   \<and> lineHeight (textContainer_style (applyStyles plain_20_25 blank_page)) = ''1.25''
   \<and> color (textContainer_style (applyStyles plain_20_25 blank_page)) = ''var(--text)''
   \<and> opacity (textContainer_style (applyStyles plain_20_25 blank_page)) = ''1''
   \<and> letterSpacing (textContainer_style (applyStyles plain_20_25 blank_page)) = ''0''"
proof -
  have a: "0 < fontSize_value soft_16_24" "200 * lineHeight_value soft_16_24 < 2 ^ 53"
    "softToggle_checked soft_16_24"
    by (simp_all add: soft_16_24_def)
  have b: "0 < fontSize_value plain_20_25" "200 * lineHeight_value plain_20_25 < 2 ^ 53"
    "\<not> softToggle_checked plain_20_25"
    by (simp_all add: plain_20_25_def)
  note t = applyStyles_sets_size_line_height_and_soft_text [OF a(1,2), of blank_page]
  note u = applyStyles_sets_size_line_height_and_soft_text [OF b(1,2), of blank_page]
  from t a(3) have "color (textContainer_style (applyStyles soft_16_24 blank_page))
        = ''var(--soft-color)''
      \<and> opacity (textContainer_style (applyStyles soft_16_24 blank_page)) = ''0.95''
      \<and> letterSpacing (textContainer_style (applyStyles soft_16_24 blank_page)) = ''0.2px''"
    by blast
  moreover from u b(3) have "color (textContainer_style (applyStyles plain_20_25 blank_page))
        = ''var(--text)''
      \<and> opacity (textContainer_style (applyStyles plain_20_25 blank_page)) = ''1''
      \<and> letterSpacing (textContainer_style (applyStyles plain_20_25 blank_page)) = ''0''"
    by blast
  moreover have "fontSize (textContainer_style (applyStyles soft_16_24 blank_page)) = ''16px''"
    "lineHeight (textContainer_style (applyStyles soft_16_24 blank_page)) = ''1.50''"
    "lineHeight (textContainer_style (applyStyles plain_20_25 blank_page)) = ''1.25''"
    by (simp_all add: soft_16_24_style plain_20_25_style)
  moreover have "\<bar>150 / 100 - 24 / 16\<bar> \<le> (1 / 200 :: rat)" by simp
  ultimately show ?thesis using a b by blast
qed

text \<open>
  The label beside the slider is another number: the line height divided by 16, whatever
  the font size is.
\<close>

lemma line_height_label_divides_by_16:
  "lineHeight (textContainer_style (applyStyles plain_20_25 blank_page)) = ''1.25''
   \<and> lineHeightLabel (applyStyles plain_20_25 blank_page) = ''1.56''"
  by code_simp

end
